theory Spec2Isabelle
  imports Complex_Main "HOL-Library.Signed_Division"
begin

section \<open>Data model\<close>

text \<open>
  A document is an ordered sequence of (word id, topic id) pairs; \<open>Document::Size\<close> is
  its length, \<open>Word(i)\<close> and \<open>Topic(i)\<close> are the two components of its \<open>i\<close>-th pair, and
  the loops over \<open>word_idx\<close> are recursions over the pairs. Word and topic ids are
  \<open>int32_t\<close> in the source and are modelled as \<open>int\<close> (\<open>Build(-1, ...)\<close> uses a negative
  id on purpose). Thread ids, thread counts, sizes and positions are never negative and
  are \<open>nat\<close>. Where a 32-bit product or counter of the source can leave the range of
  \<open>int32_t\<close>, the model says so where it is defined.
\<close>

type_synonym token = "int \<times> int"
type_synonym document = "token list"

text \<open>The fields of \<open>Config\<close> that the modelled functions read.\<close>

record config =
  num_topics :: int
  num_iterations :: int
  num_vocabs :: int
  asymmetric_alpha :: real
  word_init :: bool
  warm_start :: bool

text \<open>
  \<open>LocalVocab\<close>: the word ids of a block and, per slice, the offsets of
  \<open>begin(slice)\<close> and \<open>end(slice)\<close> into them.
\<close>

record local_vocab =
  vocab_words :: "int list"
  vocab_begin :: "int \<Rightarrow> nat"
  vocab_end :: "int \<Rightarrow> nat"

text \<open>\<open>LDADataBlock\<close>: the documents with their vocabulary, and the three indices.\<close>

record lda_data_block =
  data :: "document list"
  meta :: local_vocab
  block :: int
  slice :: int
  iteration :: int

section \<open>Round-robin loops of the trainer\<close>

text \<open>
  Both partition loops of \<open>Trainer::TrainIteration\<close> have the shape
  \<open>for (p = start; p < stop; p += trainer_num)\<close>. \<open>round_robin\<close> lists the values of the
  loop variable for which the body runs. \<open>TrainerCount()\<close> is at least one whenever a
  trainer runs; the guard \<open>0 < n\<close> only makes the function total.
\<close>

function round_robin :: "nat \<Rightarrow> nat \<Rightarrow> nat \<Rightarrow> nat list" where
  "round_robin p stop n =
     (if p < stop \<and> 0 < n then p # round_robin (p + n) stop n else [])"
  by pat_completeness auto
termination
  by (relation "measure (\<lambda>(p, stop, n). stop - p)") auto

declare round_robin.simps [simp del]

text \<open>
  The word loop (trainer.cpp, lines 61-63) starts at \<open>local_vocab.begin(slice) + id\<close> and
  stops at \<open>local_vocab.end(slice)\<close>; the document loop (line 94) starts at \<open>id\<close> and stops
  at \<open>data.Size()\<close>.
\<close>

definition word_partition :: "nat \<Rightarrow> nat \<Rightarrow> nat \<Rightarrow> nat \<Rightarrow> nat list" where
  "word_partition vbegin vend trainer_num tid = round_robin (vbegin + tid) vend trainer_num"

definition doc_partition :: "nat \<Rightarrow> nat \<Rightarrow> nat \<Rightarrow> nat list" where
  "doc_partition dsize trainer_num tid = round_robin tid dsize trainer_num"

text \<open>
  The counter of the document loop is an \<open>int32_t\<close>. \<open>doc_loop32\<close> is the loop with the
  counter in its 32 bits: when \<open>doc_id += trainer_num\<close> leaves the range (undefined in
  C++; the compiled program wraps to a negative \<open>doc_id\<close>, which is below \<open>data.Size()\<close>
  and names no document of the block) the loop ends with an error value. The pointers
  of the word loop do not leave their range.
\<close>

datatype loop_error = SignedOverflow

function doc_loop32 :: "int \<Rightarrow> int \<Rightarrow> int \<Rightarrow> loop_error + int list" where
  "doc_loop32 doc_id dsize trainer_num =
     (if doc_id < dsize \<and> 0 < trainer_num then
        (if 2147483647 < doc_id + trainer_num then Inl SignedOverflow
         else (case doc_loop32 (doc_id + trainer_num) dsize trainer_num of
                 Inl e \<Rightarrow> Inl e
               | Inr doc_ids \<Rightarrow> Inr (doc_id # doc_ids)))
      else Inr [])"
  by pat_completeness auto
termination
  by (relation "measure (\<lambda>(doc_id, dsize, trainer_num). nat (dsize - doc_id))") auto

declare doc_loop32.simps [simp del]

section \<open>LightLDA::ConfigTable\<close>

text \<open>
  \<open>multiverso::Format\<close>, and the per-row settings that \<open>Multiverso::SetServerRow\<close>,
  \<open>SetCacheRow\<close> and \<open>SetAggregatorRow\<close> record for \<open>kWordTopicTable\<close>: the format and
  capacity last set for a row, or nothing for a row never set.
\<close>

datatype format = Dense | Sparse

record table_config =
  server_row :: "int \<rightharpoonup> format \<times> int"
  cache_row :: "int \<rightharpoonup> format \<times> int"
  aggregator_row :: "int \<rightharpoonup> format \<times> int"

definition SetServerRow :: "int \<Rightarrow> format \<Rightarrow> int \<Rightarrow> table_config \<Rightarrow> table_config" where
  "SetServerRow row_id fmt capacity tc = tc\<lparr>server_row := (server_row tc)(row_id \<mapsto> (fmt, capacity))\<rparr>"

definition SetCacheRow :: "int \<Rightarrow> format \<Rightarrow> int \<Rightarrow> table_config \<Rightarrow> table_config" where
  "SetCacheRow row_id fmt capacity tc = tc\<lparr>cache_row := (cache_row tc)(row_id \<mapsto> (fmt, capacity))\<rparr>"

definition SetAggregatorRow :: "int \<Rightarrow> format \<Rightarrow> int \<Rightarrow> table_config \<Rightarrow> table_config" where
  "SetAggregatorRow row_id fmt capacity tc =
     tc\<lparr>aggregator_row := (aggregator_row tc)(row_id \<mapsto> (fmt, capacity))\<rparr>"

text \<open>
  The term frequencies \<open>Meta::tf\<close> and \<open>Meta::local_tf\<close>. The class \<open>Meta\<close> and the
  constant \<open>kLoadFactor\<close> are declared in headers that are not part of the sources, so
  the frequencies and the load factor are parameters of the model (the comment at
  lightlda.cpp line 218 gives \<open>kLoadFactor = 2\<close>).
\<close>

record meta_stats =
  tf :: "int \<Rightarrow> int"
  local_tf :: "int \<Rightarrow> int"

text \<open>
  The frequencies, the load factor and \<open>Config::num_topics\<close> are \<open>int32_t\<close>, and so are the
  products that \<open>ConfigTable\<close> compares and passes on as capacities. \<open>wrap32\<close> is the
  two's complement value of an integer in 32 bits, and \<open>mul32\<close> the product as the
  compiled program computes it: the exact product when that lies between \<open>-2^31\<close> and
  \<open>2^31 - 1\<close>, and the product wrapped around otherwise.
\<close>

definition wrap32 :: "int \<Rightarrow> int" where
  "wrap32 x = (x + 2147483648) mod 4294967296 - 2147483648"

definition mul32 :: "int \<Rightarrow> int \<Rightarrow> int" where
  "mul32 a b = wrap32 (a * b)"

text \<open>
  The body of the loop of \<open>ConfigTable\<close> (lightlda.cpp, lines 216-242) for one word.
  \<open>meta.local_tf(word) * 2 * kLoadFactor\<close> is two 32-bit products, from the left.
\<close>

definition ConfigTable_word ::
  "config \<Rightarrow> int \<Rightarrow> meta_stats \<Rightarrow> int \<Rightarrow> table_config \<Rightarrow> table_config" where
  "ConfigTable_word cfg kLoadFactor m word tc =
     (let tc1 =
        (if tf m word > 0 then
           (if mul32 (tf m word) kLoadFactor > num_topics cfg
            then SetCacheRow word Dense (num_topics cfg)
                   (SetServerRow word Dense (num_topics cfg) tc)
            else SetCacheRow word Sparse (mul32 (tf m word) kLoadFactor)
                   (SetServerRow word Sparse (mul32 (tf m word) kLoadFactor) tc))
         else tc)
      in if local_tf m word > 0 then
           (if mul32 (mul32 (local_tf m word) 2) kLoadFactor > num_topics cfg
            then SetAggregatorRow word Dense (num_topics cfg) tc1
            else SetAggregatorRow word Sparse (mul32 (mul32 (local_tf m word) 2) kLoadFactor) tc1)
         else tc1)"

text \<open>\<open>for (int32_t word = 0; word < Config::num_vocabs; ++word)\<close>, from any \<open>word\<close>.\<close>

function ConfigTable_loop ::
  "config \<Rightarrow> int \<Rightarrow> meta_stats \<Rightarrow> int \<Rightarrow> table_config \<Rightarrow> table_config" where
  "ConfigTable_loop cfg kLoadFactor m word tc =
     (if word < num_vocabs cfg
      then ConfigTable_loop cfg kLoadFactor m (word + 1) (ConfigTable_word cfg kLoadFactor m word tc)
      else tc)"
  by pat_completeness auto
termination
  by (relation "measure (\<lambda>(cfg, kLoadFactor, m, word, tc). nat (num_vocabs cfg - word))") auto

declare ConfigTable_loop.simps [simp del]

definition ConfigTable :: "config \<Rightarrow> int \<Rightarrow> meta_stats \<Rightarrow> table_config \<Rightarrow> table_config" where
  "ConfigTable cfg kLoadFactor m tc = ConfigTable_loop cfg kLoadFactor m 0 tc"

section \<open>LightLDA::Initialize\<close>

text \<open>
  The two server tables and their cells (table, row, column). \<open>Multiverso::AddToServer\<close>
  adds a delta to one cell; the counts are modelled as \<open>int\<close>.
\<close>

datatype table_id = kWordTopicTable | kSummaryRow

type_synonym server = "table_id \<times> int \<times> int \<Rightarrow> int"

definition AddToServer :: "table_id \<Rightarrow> int \<Rightarrow> int \<Rightarrow> int \<Rightarrow> server \<Rightarrow> server" where
  "AddToServer table row_id col delta s = s((table, row_id, col) := s (table, row_id, col) + delta)"

text \<open>
  The first loop over a document (lightlda.cpp, lines 122-125): the running maximum of
  the word ids, started at 0.
\<close>

fun max_word_loop :: "document \<Rightarrow> int \<Rightarrow> int" where
  "max_word_loop [] max_word_id = max_word_id"
| "max_word_loop ((w, t) # rest) max_word_id =
     max_word_loop rest (if w > max_word_id then w else max_word_id)"

text \<open>
  The second loop (lines 127-138): unless \<open>warm_start\<close> is set the token's topic is set
  to \<open>doc_topic_id\<close>; then one count is added to \<open>kWordTopicTable\<close> at the token's word
  and topic, and one to row 0 of \<open>kSummaryRow\<close> at the token's topic.
\<close>

fun init_tokens :: "config \<Rightarrow> int \<Rightarrow> document \<Rightarrow> server \<Rightarrow> document \<times> server" where
  "init_tokens cfg doc_topic_id [] s = ([], s)"
| "init_tokens cfg doc_topic_id ((w, t) # rest) s =
     (let t' = (if \<not> warm_start cfg then doc_topic_id else t);
          s1 = AddToServer kWordTopicTable w t' 1 s;
          s2 = AddToServer kSummaryRow 0 t' 1 s1
      in case init_tokens cfg doc_topic_id rest s2 of
           (rest', s3) \<Rightarrow> ((w, t') # rest', s3))"

text \<open>
  The body of the document loop. \<open>%\<close> is C++'s truncating remainder (\<open>smod\<close>); a
  remainder by zero is undefined in C++ and is an error value here.
\<close>

datatype init_error = DivisionByZero

definition Initialize_doc ::
  "config \<Rightarrow> document \<Rightarrow> server \<Rightarrow> init_error + document \<times> server" where
  "Initialize_doc cfg doc s =
     (let max_word_id = max_word_loop doc 0
      in if num_topics cfg = 0 then Inl DivisionByZero
         else Inr (init_tokens cfg (max_word_id smod num_topics cfg) doc s))"

text \<open>The loop over the documents of one data block, and the loop over the blocks.\<close>

fun Initialize_block ::
  "config \<Rightarrow> document list \<Rightarrow> server \<Rightarrow> init_error + document list \<times> server" where
  "Initialize_block cfg [] s = Inr ([], s)"
| "Initialize_block cfg (doc # docs) s =
     (case Initialize_doc cfg doc s of
        Inl e \<Rightarrow> Inl e
      | Inr (doc', s') \<Rightarrow>
          (case Initialize_block cfg docs s' of
             Inl e \<Rightarrow> Inl e
           | Inr (docs', s'') \<Rightarrow> Inr (doc' # docs', s'')))"

fun Initialize ::
  "config \<Rightarrow> document list list \<Rightarrow> server \<Rightarrow> init_error + document list list \<times> server" where
  "Initialize cfg [] s = Inr ([], s)"
| "Initialize cfg (data_block # blocks) s =
     (case Initialize_block cfg data_block s of
        Inl e \<Rightarrow> Inl e
      | Inr (data_block', s') \<Rightarrow>
          (case Initialize cfg blocks s' of
             Inl e \<Rightarrow> Inl e
           | Inr (blocks', s'') \<Rightarrow> Inr (data_block' # blocks', s'')))"

text \<open>
  What the specification of \<open>Initialize\<close> says, in its own words: the topic of a document
  is its maximum word id modulo \<open>num_topics\<close>, and every token gets it.
\<close>

definition max_word_topic :: "config \<Rightarrow> document \<Rightarrow> int" where
  "max_word_topic cfg doc = Max (set (map fst doc)) mod num_topics cfg"

definition assign_doc :: "config \<Rightarrow> document \<Rightarrow> document" where
  "assign_doc cfg doc = map (\<lambda>(w, t). (w, max_word_topic cfg doc)) doc"

text \<open>
  One count per token: \<open>counts_added toks s\<close> is the server \<open>s\<close> with, for every token
  of \<open>toks\<close>, 1 added to \<open>kWordTopicTable\<close> at the token's (word, topic) cell and 1 added
  to row 0 of \<open>kSummaryRow\<close> at the token's topic.
\<close>

definition counts_added :: "document \<Rightarrow> server \<Rightarrow> server" where
  "counts_added toks s =
     (\<lambda>(table, r, k). s (table, r, k) +
        (case table of
           kWordTopicTable \<Rightarrow> int (count_list toks (r, k))
         | kSummaryRow \<Rightarrow> (if r = 0 then int (length (filter (\<lambda>tok. snd tok = k) toks)) else 0)))"


section \<open>Trainer::TrainIteration and Trainer::Evaluate\<close>

text \<open>
  What one trainer thread does is recorded as the list of the calls it makes on the
  shared objects, in program order: the alias table (\<open>Init\<close>, \<open>Build\<close>,
  \<open>InitAsymmetricAlpha\<close>, \<open>Clear\<close>), the barrier (\<open>Wait\<close>), the sampler
  (\<open>SampleOneDoc\<close>, by document id), the call of \<open>Evaluate\<close>, the mutex and the two
  likelihood accumulators \<open>doc_llh_\<close> and \<open>word_llh_\<close> (add a partial sum, log the total,
  reset to 0), and the two \<open>Log::Fatal\<close> messages of the diagnostic check with the ids
  they print. The \<open>Log::Info\<close> progress and timing messages of \<open>TrainIteration\<close>, the stop
  watch and the read-only count of non-empty topics are not recorded. Likelihoods are
  \<open>double\<close> in the source and \<open>real\<close> here.
\<close>

datatype event =
    AliasInit int int
  | BarrierWait
  | AliasBuild int
  | AliasInitAsymmetricAlpha
  | SampleOneDoc nat
  | FatalWordTopic int int
  | FatalDocTopic int int int
  | CallEvaluate
  | MutexLock
  | MutexUnlock
  | AddDocLlh real
  | LogDocLlh
  | ResetDocLlh
  | AddWordLlh real
  | LogWordLlh
  | ResetWordLlh
  | LogNormalizedLlh
  | AliasClear

fun is_fatal :: "event \<Rightarrow> bool" where
  "is_fatal (FatalWordTopic w t) = True"
| "is_fatal (FatalDocTopic w t d) = True"
| "is_fatal e = False"

subsection \<open>Build phase (trainer.cpp, lines 58-84)\<close>

text \<open>Line 59: thread 0 installs the alias-table index of the block and slice.\<close>

definition install_index :: "lda_data_block \<Rightarrow> nat \<Rightarrow> event list" where
  "install_index blk tid = (if tid = 0 then [AliasInit (block blk) (slice blk)] else [])"

text \<open>
  Lines 61-83: the thread builds the slots of its words; thread 0 then builds the dense
  slot with \<open>Build(-1, ...)\<close> and, when \<open>Config::asymmetric_alpha >= 0\<close>, calls
  \<open>InitAsymmetricAlpha\<close>. The value returned by \<open>Build\<close> is not read.
\<close>

definition build_slots :: "config \<Rightarrow> lda_data_block \<Rightarrow> nat \<Rightarrow> nat \<Rightarrow> event list" where
  "build_slots cfg blk tid trainer_num =
     map (\<lambda>pword. AliasBuild (vocab_words (meta blk) ! pword))
       (word_partition (vocab_begin (meta blk) (slice blk))
          (vocab_end (meta blk) (slice blk)) trainer_num tid)
     @ (if tid = 0 then [AliasBuild (- 1)] else [])
     @ (if tid = 0 \<and> asymmetric_alpha cfg \<ge> 0 then [AliasInitAsymmetricAlpha] else [])"

definition build_phase :: "config \<Rightarrow> lda_data_block \<Rightarrow> nat \<Rightarrow> nat \<Rightarrow> event list" where
  "build_phase cfg blk tid trainer_num =
     install_index blk tid @ [BarrierWait] @ build_slots cfg blk tid trainer_num @ [BarrierWait]"

subsection \<open>Diagnostic check and sampling (lines 94-116)\<close>

text \<open>
  The loop of lines 101-105 (with \<open>word_init\<close>): the first token whose topic differs from
  its word id is reported.
\<close>

fun check_word_topics :: "document \<Rightarrow> event option" where
  "check_word_topics [] = None"
| "check_word_topics ((w, t) # rest) =
     (if t \<noteq> w then Some (FatalWordTopic w t) else check_word_topics rest)"

text \<open>
  The loop of lines 108-112 (without \<open>word_init\<close>), over the tokens from index 1 on: the
  first token whose topic differs from \<open>doc_topic_id\<close> is reported.
\<close>

fun check_doc_topics :: "int \<Rightarrow> document \<Rightarrow> event option" where
  "check_doc_topics doc_topic_id [] = None"
| "check_doc_topics doc_topic_id ((w, t) # rest) =
     (if t \<noteq> doc_topic_id then Some (FatalDocTopic w t doc_topic_id)
      else check_doc_topics doc_topic_id rest)"

text \<open>
  Lines 99-114. Without \<open>word_init\<close> the source reads \<open>doc->Topic(0)\<close> before the loop;
  for a document without tokens the loop does not run and the value read is not used.
\<close>

definition diagnostic_check :: "config \<Rightarrow> int \<Rightarrow> int \<Rightarrow> document \<Rightarrow> event option" where
  "diagnostic_check cfg iter slice_id doc =
     (if iter = 0 \<and> slice_id = 0 then
        (if word_init cfg then check_word_topics doc
         else (case doc of
                 [] \<Rightarrow> None
               | (w0, doc_topic_id) # rest \<Rightarrow> check_doc_topics doc_topic_id rest))
      else None)"

text \<open>
  Modelled from the spec: \<open>Log::Fatal\<close> belongs to the multiverso library, which is not
  part of the sources; the spec says that a failed diagnostic check "is logged as fatal
  and halts the run". So the loop over the thread's documents ends at the first fatal
  message, and the flag returned with the events says whether it did.
\<close>

fun sample_loop ::
  "config \<Rightarrow> int \<Rightarrow> int \<Rightarrow> document list \<Rightarrow> nat list \<Rightarrow> event list \<times> bool" where
  "sample_loop cfg iter slice_id docs [] = ([], False)"
| "sample_loop cfg iter slice_id docs (doc_id # doc_ids) =
     (case diagnostic_check cfg iter slice_id (docs ! doc_id) of
        Some fatal \<Rightarrow> ([fatal], True)
      | None \<Rightarrow>
          (case sample_loop cfg iter slice_id docs doc_ids of
             (events, halted) \<Rightarrow> (SampleOneDoc doc_id # events, halted)))"

subsection \<open>Evaluate (lines 141-192)\<close>

text \<open>
  \<open>Eval::ComputeOneDocLLH\<close> and \<open>Eval::ComputeOneWordLLH\<close> are outside the sources and
  are parameters.
\<close>

record eval_fns =
  ComputeOneDocLLH :: "document \<Rightarrow> real"
  ComputeOneWordLLH :: "int \<Rightarrow> real"

text \<open>
  The two accumulation loops. Their conditions \<open>slice == 0\<close> and \<open>block == 0\<close> do not
  change while the loop runs, so the loop runs over the thread's whole partition or not
  at all.
\<close>

definition thread_doc :: "eval_fns \<Rightarrow> lda_data_block \<Rightarrow> nat \<Rightarrow> nat \<Rightarrow> real" where
  "thread_doc ev blk tid trainer_num =
     foldl (\<lambda>acc doc_id. acc + ComputeOneDocLLH ev (data blk ! doc_id)) 0
       (if slice blk = 0 then doc_partition (length (data blk)) trainer_num tid else [])"

definition thread_word :: "eval_fns \<Rightarrow> lda_data_block \<Rightarrow> nat \<Rightarrow> nat \<Rightarrow> real" where
  "thread_word ev blk tid trainer_num =
     foldl (\<lambda>acc pword. acc + ComputeOneWordLLH ev (vocab_words (meta blk) ! pword)) 0
       (if block blk = 0
        then word_partition (vocab_begin (meta blk) (slice blk))
               (vocab_end (meta blk) (slice blk)) trainer_num tid
        else [])"

text \<open>
  The three numbered parts of \<open>Evaluate\<close>: the document likelihood (lines 150-166),
  the word likelihood (lines 168-182) and the normalized likelihood with the closing
  barrier wait (lines 184-191). \<open>wait_doc\<close> and \<open>wait_word\<close> are what
  \<open>barrier_->Wait()\<close> returns to this thread at lines 161 and 178; \<open>&&\<close> does not call
  \<open>Wait\<close> when its left operand is false.
\<close>

definition evaluate_doc :: "eval_fns \<Rightarrow> lda_data_block \<Rightarrow> nat \<Rightarrow> nat \<Rightarrow> bool \<Rightarrow> event list" where
  "evaluate_doc ev blk tid trainer_num wait_doc =
     [MutexLock, AddDocLlh (thread_doc ev blk tid trainer_num), MutexUnlock]
     @ (if slice blk = 0
        then BarrierWait # (if wait_doc then [LogDocLlh, ResetDocLlh] else [])
        else [])"

definition evaluate_word :: "eval_fns \<Rightarrow> lda_data_block \<Rightarrow> nat \<Rightarrow> nat \<Rightarrow> bool \<Rightarrow> event list" where
  "evaluate_word ev blk tid trainer_num wait_word =
     [MutexLock, AddWordLlh (thread_word ev blk tid trainer_num), MutexUnlock]
     @ (if block blk = 0
        then BarrierWait # (if wait_word then [LogWordLlh, ResetWordLlh] else [])
        else [])"

definition evaluate_normalize :: "lda_data_block \<Rightarrow> nat \<Rightarrow> event list" where
  "evaluate_normalize blk tid =
     (if tid = 0 \<and> block blk = 0 then [LogNormalizedLlh] else []) @ [BarrierWait]"

definition Evaluate ::
  "eval_fns \<Rightarrow> lda_data_block \<Rightarrow> nat \<Rightarrow> nat \<Rightarrow> bool \<Rightarrow> bool \<Rightarrow> event list" where
  "Evaluate ev blk tid trainer_num wait_doc wait_word =
     evaluate_doc ev blk tid trainer_num wait_doc
     @ evaluate_word ev blk tid trainer_num wait_word
     @ evaluate_normalize blk tid"

fun is_addition :: "event \<Rightarrow> bool" where
  "is_addition (AddDocLlh x) = True"
| "is_addition (AddWordLlh x) = True"
| "is_addition e = False"

text \<open>
  \<open>under_mutex held events\<close>: every addition to an accumulator in \<open>events\<close> happens while
  the thread holds the mutex, \<open>held\<close> saying whether it holds it at the start.
\<close>

fun under_mutex :: "bool \<Rightarrow> event list \<Rightarrow> bool" where
  "under_mutex held [] = True"
| "under_mutex held (MutexLock # es) = under_mutex True es"
| "under_mutex held (MutexUnlock # es) = under_mutex False es"
| "under_mutex held (AddDocLlh x # es) = (held \<and> under_mutex held es)"
| "under_mutex held (AddWordLlh x # es) = (held \<and> under_mutex held es)"
| "under_mutex held (e # es) = under_mutex held es"

subsection \<open>TrainIteration (lines 37-139)\<close>

text \<open>Lines 128-138: the evaluation on even iterations, and the clearing on the last.\<close>

definition evaluate_and_clear ::
  "config \<Rightarrow> eval_fns \<Rightarrow> lda_data_block \<Rightarrow> nat \<Rightarrow> nat \<Rightarrow> bool \<Rightarrow> bool \<Rightarrow> event list" where
  "evaluate_and_clear cfg ev blk tid trainer_num wait_doc wait_word =
     (if iteration blk smod 2 = 0
      then CallEvaluate # Evaluate ev blk tid trainer_num wait_doc wait_word
      else [])
     @ (if iteration blk = num_iterations cfg - 1 then [AliasClear] else [])"

definition TrainIteration ::
  "config \<Rightarrow> eval_fns \<Rightarrow> lda_data_block \<Rightarrow> nat \<Rightarrow> nat \<Rightarrow> bool \<Rightarrow> bool \<Rightarrow> event list" where
  "TrainIteration cfg ev blk tid trainer_num wait_doc wait_word =
     (let sampled = sample_loop cfg (iteration blk) (slice blk) (data blk)
                      (doc_partition (length (data blk)) trainer_num tid)
      in build_phase cfg blk tid trainer_num
         @ fst sampled
         @ (if snd sampled then []
            else evaluate_and_clear cfg ev blk tid trainer_num wait_doc wait_word))"

subsection \<open>Threads and the barrier\<close>

text \<open>
  Modelled from the spec: the barrier belongs to the multiverso library; the spec gives
  \<open>wait() -> bool\<close>, "returning true on exactly one calling thread per release" and
  "blocking all callers until the configured thread count has arrived". In
  \<open>LightLDA::Run\<close> the barrier is created for \<open>num_local_workers\<close> threads, the number
  of trainers.

  A thread is the list of events it has performed and the list it has still to
  perform. A scheduler either lets one thread perform its next event, which must not be
  a \<open>Wait\<close>, or releases the barrier when every thread is at a \<open>Wait\<close>. After a fatal
  message nothing runs any more.
\<close>

type_synonym thread_state = "event list \<times> event list"

datatype choice = Run nat | Release

definition halted :: "thread_state list \<Rightarrow> bool" where
  "halted sys = list_ex (\<lambda>th. list_ex is_fatal (fst th)) sys"

definition at_barrier :: "thread_state \<Rightarrow> bool" where
  "at_barrier th = (case snd th of [] \<Rightarrow> False | e # rest \<Rightarrow> e = BarrierWait)"

text \<open>
  Modelled from the spec: one step of a schedule, with the barrier as the spec
  describes it (every caller of \<open>Wait\<close> is blocked until all threads have arrived).
\<close>

fun sched_step :: "choice \<Rightarrow> thread_state list \<Rightarrow> thread_state list option" where
  "sched_step (Run i) sys =
     (if halted sys \<or> length sys \<le> i then None
      else (case snd (sys ! i) of
              [] \<Rightarrow> None
            | e # rest \<Rightarrow>
                if e = BarrierWait then None
                else Some (sys[i := (fst (sys ! i) @ [e], rest)])))"
| "sched_step Release sys =
     (if halted sys \<or> sys = [] \<or> \<not> list_all at_barrier sys then None
      else Some (map (\<lambda>th. (fst th @ [BarrierWait], tl (snd th))) sys))"

fun run_schedule :: "choice list \<Rightarrow> thread_state list \<Rightarrow> thread_state list option" where
  "run_schedule [] sys = Some sys"
| "run_schedule (c # cs) sys =
     (case sched_step c sys of
        None \<Rightarrow> None
      | Some sys' \<Rightarrow> run_schedule cs sys')"

text \<open>
  The threads of one call of \<open>TrainIteration\<close> on a data block, before any has run.
  \<open>wait_doc tid\<close> and \<open>wait_word tid\<close> are the barrier's answers to thread \<open>tid\<close>.
\<close>

definition train_threads ::
  "config \<Rightarrow> eval_fns \<Rightarrow> lda_data_block \<Rightarrow> nat \<Rightarrow> (nat \<Rightarrow> bool) \<Rightarrow> (nat \<Rightarrow> bool)
     \<Rightarrow> thread_state list" where
  "train_threads cfg ev blk trainer_num wait_doc wait_word =
     map (\<lambda>tid. ([], TrainIteration cfg ev blk tid trainer_num (wait_doc tid) (wait_word tid)))
       [0..<trainer_num]"

subsection \<open>The invariant that the diagnostic check expects\<close>

text \<open>
  In the words of the specification: with \<open>word_init\<close> every token's topic is the token's word
  id; without it every token's topic is the topic of the document's first token.
\<close>

definition doc_invariant :: "config \<Rightarrow> document \<Rightarrow> bool" where
  "doc_invariant cfg doc =
     (if word_init cfg then list_all (\<lambda>tok. snd tok = fst tok) doc
      else list_all (\<lambda>tok. snd tok = snd (hd doc)) doc)"

subsection \<open>What every schedule preserves\<close>

text \<open>
  \<open>in_step progs sys\<close>: thread \<open>i\<close> has performed a prefix of its program \<open>progs ! i\<close> and
  has the rest of it still to perform, and all threads have passed the same number of
  barrier waits.
\<close>

definition in_step :: "event list list \<Rightarrow> thread_state list \<Rightarrow> bool" where
  "in_step progs sys \<longleftrightarrow>
     length sys = length progs
     \<and> (\<forall>i<length progs. fst (sys ! i) @ snd (sys ! i) = progs ! i)
     \<and> (\<forall>i<length progs. \<forall>j<length progs.
           count_list (fst (sys ! i)) BarrierWait = count_list (fst (sys ! j)) BarrierWait)"

section \<open>Example inputs\<close>

text \<open>
  A small configuration and data block on which the theorems below are exercised: two
  documents over the words 1 and 2, of which the second does not have one topic for
  all its tokens; three iterations.
\<close>

definition example_config :: config where
  "example_config =
     \<lparr>num_topics = 5, num_iterations = 3, num_vocabs = 4, asymmetric_alpha = 0,
      word_init = False, warm_start = False\<rparr>"

definition example_eval :: eval_fns where
  "example_eval = \<lparr>ComputeOneDocLLH = (\<lambda>doc. - 1), ComputeOneWordLLH = (\<lambda>w. - 2)\<rparr>"

definition example_vocab :: local_vocab where
  "example_vocab = \<lparr>vocab_words = [1, 2], vocab_begin = (\<lambda>s. 0), vocab_end = (\<lambda>s. 2)\<rparr>"

definition example_block :: "int \<Rightarrow> lda_data_block" where
  "example_block iter =
     \<lparr>data = [[(1, 3), (2, 3)], [(1, 3), (2, 4)]], meta = example_vocab,
      block = 0, slice = 0, iteration = iter\<rparr>"

section \<open>AliasTable::Build and AliasTable::Propose\<close>

text \<open>
  The sources hold the declarations of \<open>AliasTable\<close> (alias\_table.h) and its callers,
  not the bodies of its methods. The two methods below are modelled from the spec.

  An alias slot, in the spec's words: "a \<open>height\<close> count (number of valid bins), a
  \<open>mass\<close> (total un-normalized probability), and a packed array of
  (primary\_topic, alternate\_topic) bin pairs"; a bin also has the stored height
  against which the threshold of a draw is compared.
\<close>

record alias_slot =
  height :: nat
  mass :: real
  bins :: "(real \<times> int \<times> int) list"

text \<open>
  The alias table: the capacity that the installed index reserves for each word, the
  slots of the words built so far, and the shared dense smoothing slot.
\<close>

record alias_table =
  capacity :: "int \<Rightarrow> nat"
  word_slot :: "int \<rightharpoonup> alias_slot"
  dense_slot :: "alias_slot option"

text \<open>
  What \<open>Build\<close> reads through \<open>ModelBase\<close>: the row of per-topic counts of a word, and
  the summary row.
\<close>

record model =
  word_topic_row :: "int \<Rightarrow> int list"
  summary_row :: "int list"

text \<open>The (topic, count) entries of a row whose count is not zero.\<close>

definition nonzero_entries :: "int list \<Rightarrow> (int \<times> int) list" where
  "nonzero_entries row = filter (\<lambda>(k, c). c \<noteq> 0) (zip (map int [0..<length row]) row)"

datatype build_error = CapacityViolation

text \<open>
  Modelled from the spec: the body of \<open>AliasTable::Build\<close> is not in the sources. The
  spec: "if \<open>word \<ge> 0\<close>, constructs/refreshes the sparse slot for that word from its
  current count-table row, using the capacity reserved in the index; fails (reports an
  error, does not throw) if the word's nonzero-topic count exceeds the reserved
  capacity. If \<open>word == -1\<close>, constructs/refreshes the single shared dense smoothing slot
  from the current summary row instead." The construction of a slot from the entries
  (\<open>AliasMultinomialRNG\<close>, on floats) is the parameter \<open>make_slot\<close>. The spec says nothing
  about a word below -1; the model leaves the table as it is.
\<close>

definition Build ::
  "((int \<times> int) list \<Rightarrow> alias_slot) \<Rightarrow> int \<Rightarrow> model \<Rightarrow> alias_table
     \<Rightarrow> build_error + alias_table" where
  "Build make_slot word m table =
     (if 0 \<le> word then
        (let entries = nonzero_entries (word_topic_row m word)
         in if capacity table word < length entries then Inl CapacityViolation
            else Inr (table\<lparr>word_slot := (word_slot table)(word \<mapsto> make_slot entries)\<rparr>))
      else if word = - 1 then
        Inr (table\<lparr>dense_slot :=
               Some (make_slot (zip (map int [0..<length (summary_row m)]) (summary_row m)))\<rparr>)
      else Inr table)"

text \<open>
  Modelled from the spec: the classical alias draw, "pick a uniformly random bin in
  \<open>[0, height)\<close>, then a uniform threshold; return the bin's primary topic if the
  threshold falls under the bin's stored height, else its alternate topic". The random
  numbers are inputs: \<open>u_bin\<close> and \<open>u_threshold\<close> are uniform draws from \<open>[0, 1)\<close>.
\<close>

definition pick_bin :: "alias_slot \<Rightarrow> real \<Rightarrow> nat" where
  "pick_bin slot u_bin = nat \<lfloor>u_bin * real (height slot)\<rfloor>"

definition alias_draw :: "alias_slot \<Rightarrow> real \<Rightarrow> real \<Rightarrow> int" where
  "alias_draw slot u_bin u_threshold =
     (case bins slot ! pick_bin slot u_bin of
        (bin_height, primary, alternate) \<Rightarrow>
          if u_threshold < bin_height then primary else alternate)"

text \<open>
  Modelled from the spec: the body of \<open>AliasTable::Propose\<close> is not in the sources. The
  spec: "draw a uniform value in \<open>[0, sparse_mass + dense_mass)\<close>; if below
  \<open>sparse_mass\<close>, sample from the sparse slot, else sample from the dense slot".
  \<open>u_mass\<close> is a uniform draw from \<open>[0, 1)\<close>, scaled to the total mass. A word whose slot
  has not been built, or a table without dense slot, gives no proposal.
\<close>

definition mixture_value :: "alias_slot \<Rightarrow> alias_slot \<Rightarrow> real \<Rightarrow> real" where
  "mixture_value sparse dense u_mass = u_mass * (mass sparse + mass dense)"

definition Propose :: "alias_table \<Rightarrow> int \<Rightarrow> real \<Rightarrow> real \<Rightarrow> real \<Rightarrow> int option" where
  "Propose table word u_mass u_bin u_threshold =
     (case (word_slot table word, dense_slot table) of
        (Some sparse, Some dense) \<Rightarrow>
          Some (if mixture_value sparse dense u_mass < mass sparse
                then alias_draw sparse u_bin u_threshold
                else alias_draw dense u_bin u_threshold)
      | _ \<Rightarrow> None)"

section \<open>Properties of the round-robin loops\<close>

lemma set_round_robin:
  "0 < n \<Longrightarrow> set (round_robin p stop n) = {x. x < stop \<and> (\<exists>k. x = p + k * n)}"
proof (induction p stop n rule: round_robin.induct)
  case (1 p stop n)
  show ?case
  proof (cases "p < stop")
    case True
    have step: "set (round_robin p stop n) = insert p (set (round_robin (p + n) stop n))"
      using True "1.prems" by (subst round_robin.simps) simp
    have ih: "set (round_robin (p + n) stop n) = {x. x < stop \<and> (\<exists>k. x = p + n + k * n)}"
      using "1.IH" True "1.prems" by simp
    show ?thesis
    proof (rule set_eqI)
      fix x
      show "x \<in> set (round_robin p stop n) \<longleftrightarrow> x \<in> {x. x < stop \<and> (\<exists>k. x = p + k * n)}"
      proof
        assume "x \<in> set (round_robin p stop n)"
        then consider (first) "x = p" | (later) "x < stop" "\<exists>k. x = p + n + k * n"
          using step ih by auto
        then show "x \<in> {x. x < stop \<and> (\<exists>k. x = p + k * n)}"
        proof cases
          case first
          have "\<exists>k. x = p + k * n"
            by (rule exI [of _ 0]) (simp add: first)
          then show ?thesis using first True by simp
        next
          case later
          then obtain k where "x = p + n + k * n" by blast
          then have "x = p + Suc k * n" by simp
          then have "\<exists>k. x = p + k * n" by (rule exI)
          then show ?thesis using later(1) by simp
        qed
      next
        assume "x \<in> {x. x < stop \<and> (\<exists>k. x = p + k * n)}"
        then obtain k where k: "x < stop" "x = p + k * n" by blast
        show "x \<in> set (round_robin p stop n)"
        proof (cases k)
          case 0
          then show ?thesis using k step by simp
        next
          case (Suc k')
          then have "x = p + n + k' * n" using k by simp
          then show ?thesis using k(1) step ih by blast
        qed
      qed
    qed
  next
    case False
    have "round_robin p stop n = []"
      using False by (subst round_robin.simps) simp
    moreover have "\<And>k. \<not> p + k * n < stop" using False by simp
    ultimately show ?thesis by auto
  qed
qed

lemma round_robin_ge: "x \<in> set (round_robin p stop n) \<Longrightarrow> p \<le> x"
proof (induction p stop n rule: round_robin.induct)
  case (1 p stop n)
  show ?case
  proof (cases "p < stop \<and> 0 < n")
    case True
    then have "set (round_robin p stop n) = insert p (set (round_robin (p + n) stop n))"
      by (subst round_robin.simps) simp
    then have "x = p \<or> x \<in> set (round_robin (p + n) stop n)"
      using "1.prems" by simp
    then show ?thesis using "1.IH" True by fastforce
  next
    case False
    then have "round_robin p stop n = []"
      by (subst round_robin.simps) simp
    then show ?thesis using "1.prems" by simp
  qed
qed

lemma distinct_round_robin: "distinct (round_robin p stop n)"
proof (induction p stop n rule: round_robin.induct)
  case (1 p stop n)
  show ?case
  proof (cases "p < stop \<and> 0 < n")
    case True
    then have eq: "round_robin p stop n = p # round_robin (p + n) stop n"
      by (subst round_robin.simps) simp
    have "p \<notin> set (round_robin (p + n) stop n)"
      using round_robin_ge [of p "p + n" stop n] True by auto
    then show ?thesis using eq "1.IH" True by simp
  next
    case False
    then have "round_robin p stop n = []"
      by (subst round_robin.simps) simp
    then show ?thesis by simp
  qed
qed

lemma round_robin_owner_unique:
  assumes n: "0 < n" and i: "i < n" and j: "j < n"
    and xi: "x \<in> set (round_robin (b + i) stop n)"
    and xj: "x \<in> set (round_robin (b + j) stop n)"
  shows "i = j"
proof -
  obtain k where k: "x = b + i + k * n" using xi set_round_robin [OF n] by auto
  obtain l where l: "x = b + j + l * n" using xj set_round_robin [OF n] by auto
  have "(i + k * n) mod n = (j + l * n) mod n" using k l by simp
  then show ?thesis using i j by simp
qed

lemma round_robin_owner_exists:
  assumes n: "0 < n" and x: "b \<le> x" "x < stop"
  shows "(x - b) mod n < n \<and> x \<in> set (round_robin (b + (x - b) mod n) stop n)"
proof -
  have "x - b = (x - b) mod n + ((x - b) div n) * n" by simp
  then have "x = b + (x - b) mod n + ((x - b) div n) * n" using x(1) by linarith
  then have "\<exists>k. x = b + (x - b) mod n + k * n" by blast
  then show ?thesis using n x(2) set_round_robin [OF n] by simp
qed

lemma round_robin_cover:
  assumes n: "0 < n"
  shows "(\<Union>i<n. set (round_robin (b + i) stop n)) = {b..<stop}"
proof (rule set_eqI)
  fix x
  show "x \<in> (\<Union>i<n. set (round_robin (b + i) stop n)) \<longleftrightarrow> x \<in> {b..<stop}"
  proof
    assume "x \<in> (\<Union>i<n. set (round_robin (b + i) stop n))"
    then obtain i where i: "i < n" "x \<in> set (round_robin (b + i) stop n)" by blast
    have "b + i \<le> x" using round_robin_ge [OF i(2)] .
    moreover have "x < stop" using i(2) set_round_robin [OF n] by auto
    ultimately show "x \<in> {b..<stop}" by simp
  next
    assume "x \<in> {b..<stop}"
    then have "b \<le> x" "x < stop" by simp_all
    from round_robin_owner_exists [OF n this]
    show "x \<in> (\<Union>i<n. set (round_robin (b + i) stop n))" by blast
  qed
qed

lemma doc_loop32_round_robin:
  "int dsize + int T \<le> 2147483648 \<Longrightarrow>
     doc_loop32 (int p) (int dsize) (int T) = Inr (map int (round_robin p dsize T))"
proof (induction p dsize T rule: round_robin.induct)
  case (1 p stop n)
  show ?case
  proof (cases "p < stop \<and> 0 < n")
    case True
    have rr: "round_robin p stop n = p # round_robin (p + n) stop n"
      using True by (subst round_robin.simps) simp
    have no_overflow: "\<not> 2147483647 < int p + int n" using True "1.prems" by linarith
    have "doc_loop32 (int p) (int stop) (int n) =
        (case doc_loop32 (int p + int n) (int stop) (int n) of
           Inl e \<Rightarrow> Inl e | Inr doc_ids \<Rightarrow> Inr (int p # doc_ids))"
      using True no_overflow by (subst doc_loop32.simps) simp
    also have "doc_loop32 (int p + int n) (int stop) (int n) =
        Inr (map int (round_robin (p + n) stop n))"
      using "1.IH" [OF True "1.prems"] by simp
    finally show ?thesis by (simp add: rr)
  next
    case False
    have "round_robin p stop n = []"
      using False by (subst round_robin.simps) simp
    moreover have "doc_loop32 (int p) (int stop) (int n) = Inr []"
      using False by (subst doc_loop32.simps) auto
    ultimately show ?thesis by simp
  qed
qed

lemma count_list_map_inj:
  "inj_on f (insert x (set xs)) \<Longrightarrow> count_list (map f xs) (f x) = count_list xs x"
  by (induction xs) (auto simp: inj_on_def)

lemma count_list_distinct: "distinct xs \<Longrightarrow> count_list xs x = (if x \<in> set xs then 1 else 0)"
  by (induction xs) auto

lemma round_robin_range:
  assumes "0 < n" and "x \<in> set (round_robin (b + i) stop n)"
  shows "x \<in> {b..<stop}"
proof -
  have "b + i \<le> x" using round_robin_ge [OF assms(2)] .
  moreover have "x < stop" using assms(2) set_round_robin [OF assms(1)] by auto
  ultimately show ?thesis by simp
qed

lemma one_owner_sum:
  assumes n: "0 < n" and x: "x \<in> {b..<stop}"
  shows "(\<Sum>i<n. if x \<in> set (round_robin (b + i) stop n) then 1 else 0) = (1::nat)"
proof -
  define ow where "ow = (x - b) mod n"
  have bx: "b \<le> x" "x < stop" using x by simp_all
  have own: "ow < n" "x \<in> set (round_robin (b + ow) stop n)"
    using round_robin_owner_exists [OF n bx] unfolding ow_def by blast+
  have iff: "x \<in> set (round_robin (b + i) stop n) \<longleftrightarrow> i = ow" if "i < n" for i
  proof
    assume "x \<in> set (round_robin (b + i) stop n)"
    from round_robin_owner_unique [OF n that own(1) this own(2)] show "i = ow" .
  next
    assume "i = ow" then show "x \<in> set (round_robin (b + i) stop n)" using own(2) by simp
  qed
  have "(\<Sum>i<n. if x \<in> set (round_robin (b + i) stop n) then 1 else 0)
      = (\<Sum>i<n. if i = ow then 1 else (0::nat))"
  proof (rule sum.cong [OF refl])
    fix i assume "i \<in> {..<n}"
    then have "i < n" by simp
    from iff [OF this]
    show "(if x \<in> set (round_robin (b + i) stop n) then 1 else 0)
        = (if i = ow then 1 else (0::nat))" by simp
  qed
  also have "\<dots> = 1" using own(1) by simp
  finally show ?thesis .
qed

lemma round_robin_index_partitions:
  assumes "1 \<le> T"
  shows "(\<forall>tid<T. distinct (word_partition vbegin vend T tid))
       \<and> (\<forall>i<T. \<forall>j<T. i \<noteq> j \<longrightarrow>
             set (word_partition vbegin vend T i) \<inter> set (word_partition vbegin vend T j) = {})
       \<and> (\<Union>tid<T. set (word_partition vbegin vend T tid)) = {vbegin..<vend}
       \<and> (\<forall>tid<T. distinct (doc_partition dsize T tid))
       \<and> (\<forall>i<T. \<forall>j<T. i \<noteq> j \<longrightarrow>
             set (doc_partition dsize T i) \<inter> set (doc_partition dsize T j) = {})
       \<and> (\<Union>tid<T. set (doc_partition dsize T tid)) = {0..<dsize}"
proof -
  have T: "0 < T" using assms by simp
  have w1: "\<forall>tid<T. distinct (word_partition vbegin vend T tid)"
    by (simp add: word_partition_def distinct_round_robin)
  have w2: "\<forall>i<T. \<forall>j<T. i \<noteq> j \<longrightarrow>
      set (word_partition vbegin vend T i) \<inter> set (word_partition vbegin vend T j) = {}"
    unfolding word_partition_def using round_robin_owner_unique [OF T] by blast
  have w3: "(\<Union>tid<T. set (word_partition vbegin vend T tid)) = {vbegin..<vend}"
    unfolding word_partition_def by (rule round_robin_cover [OF T])
  have d1: "\<forall>tid<T. distinct (doc_partition dsize T tid)"
    by (simp add: doc_partition_def distinct_round_robin)
  have d2: "\<forall>i<T. \<forall>j<T. i \<noteq> j \<longrightarrow>
      set (doc_partition dsize T i) \<inter> set (doc_partition dsize T j) = {}"
    unfolding doc_partition_def using round_robin_owner_unique [OF T, where b = 0] by auto
  have d3: "(\<Union>tid<T. set (doc_partition dsize T tid)) = {0..<dsize}"
    unfolding doc_partition_def using round_robin_cover [OF T, of 0 dsize] by simp
  show ?thesis using w1 w2 w3 d1 d2 d3 by blast
qed

section \<open>Properties of ConfigTable\<close>

lemma ConfigTable_word_other:
  "w \<noteq> word \<Longrightarrow>
     server_row (ConfigTable_word cfg k m word tc) w = server_row tc w
   \<and> cache_row (ConfigTable_word cfg k m word tc) w = cache_row tc w"
  by (simp add: ConfigTable_word_def Let_def SetServerRow_def SetCacheRow_def
      SetAggregatorRow_def)

lemma ConfigTable_word_self:
  "0 < tf m word \<Longrightarrow>
     server_row (ConfigTable_word cfg k m word tc) word =
       Some (if mul32 (tf m word) k > num_topics cfg then (Dense, num_topics cfg)
             else (Sparse, mul32 (tf m word) k))
   \<and> cache_row (ConfigTable_word cfg k m word tc) word =
       Some (if mul32 (tf m word) k > num_topics cfg then (Dense, num_topics cfg)
             else (Sparse, mul32 (tf m word) k))"
  by (simp add: ConfigTable_word_def Let_def SetServerRow_def SetCacheRow_def
      SetAggregatorRow_def)

lemma ConfigTable_loop_before:
  "w < word \<Longrightarrow>
     server_row (ConfigTable_loop cfg k m word tc) w = server_row tc w
   \<and> cache_row (ConfigTable_loop cfg k m word tc) w = cache_row tc w"
proof (induction cfg k m word tc rule: ConfigTable_loop.induct)
  case (1 cfg k m word tc)
  show ?case
  proof (cases "word < num_vocabs cfg")
    case True
    have "ConfigTable_loop cfg k m word tc =
        ConfigTable_loop cfg k m (word + 1) (ConfigTable_word cfg k m word tc)"
      using True by (subst ConfigTable_loop.simps) simp
    moreover have "w < word + 1" "w \<noteq> word" using "1.prems" by simp_all
    ultimately show ?thesis
      using "1.IH" [OF True] ConfigTable_word_other [of w word cfg k m tc] by simp
  next
    case False
    then show ?thesis by (subst (1 2) ConfigTable_loop.simps) simp
  qed
qed

lemma ConfigTable_loop_sets:
  "word \<le> w \<Longrightarrow> w < num_vocabs cfg \<Longrightarrow> 0 < tf m w \<Longrightarrow>
     server_row (ConfigTable_loop cfg k m word tc) w =
       Some (if mul32 (tf m w) k > num_topics cfg then (Dense, num_topics cfg)
             else (Sparse, mul32 (tf m w) k))
   \<and> cache_row (ConfigTable_loop cfg k m word tc) w =
       Some (if mul32 (tf m w) k > num_topics cfg then (Dense, num_topics cfg)
             else (Sparse, mul32 (tf m w) k))"
proof (induction cfg k m word tc rule: ConfigTable_loop.induct)
  case (1 cfg k m word tc)
  have lt: "word < num_vocabs cfg" using "1.prems" by simp
  have unfold: "ConfigTable_loop cfg k m word tc =
      ConfigTable_loop cfg k m (word + 1) (ConfigTable_word cfg k m word tc)"
    using lt by (subst ConfigTable_loop.simps) simp
  show ?case
  proof (cases "word = w")
    case True
    have "w < word + 1" using True by simp
    from ConfigTable_loop_before [OF this, of cfg k m "ConfigTable_word cfg k m word tc"]
    show ?thesis
      using unfold True ConfigTable_word_self [OF "1.prems"(3), of cfg k tc] by simp
  next
    case False
    then have "word + 1 \<le> w" using "1.prems" by simp
    from "1.IH" [OF lt this "1.prems"(2,3)] show ?thesis using unfold by simp
  qed
qed

lemma wrap32_in_range:
  "- 2147483648 \<le> x \<Longrightarrow> x \<le> 2147483647 \<Longrightarrow> wrap32 x = x"
  by (simp add: wrap32_def)

lemma wrap32_bounds: "- 2147483648 \<le> wrap32 x \<and> wrap32 x \<le> 2147483647"
proof -
  have "0 \<le> (x + 2147483648) mod 4294967296" "(x + 2147483648) mod 4294967296 < 4294967296"
    by simp_all
  then show ?thesis unfolding wrap32_def by linarith
qed

text \<open>
  C3. For every word of the vocabulary with \<open>tf(word) > 0\<close>, \<open>ConfigTable\<close> leaves the
  word's server row and cache row dense with capacity \<open>num_topics\<close> if and only if
  \<open>tf(word) * kLoadFactor > num_topics\<close> (strictly), and otherwise sparse with capacity
  \<open>tf(word) * kLoadFactor\<close>; at equality the row is sparse with capacity \<open>num_topics\<close>. The
  product is the program's 32-bit product; whenever the exact product fits in 32 bits
  it is the exact product, and the statement holds of the exact product.
\<close>

theorem ConfigTable_row_format:
  assumes "0 \<le> word" and "word < num_vocabs cfg" and "0 < tf m word"
  shows "server_row (ConfigTable cfg kLoadFactor m tc) word =
           Some (if mul32 (tf m word) kLoadFactor > num_topics cfg
                 then (Dense, num_topics cfg)
                 else (Sparse, mul32 (tf m word) kLoadFactor))
       \<and> cache_row (ConfigTable cfg kLoadFactor m tc) word =
           server_row (ConfigTable cfg kLoadFactor m tc) word
       \<and> (mul32 (tf m word) kLoadFactor = num_topics cfg \<longrightarrow>
            server_row (ConfigTable cfg kLoadFactor m tc) word = Some (Sparse, num_topics cfg))
       \<and> (- 2147483648 \<le> tf m word * kLoadFactor \<and> tf m word * kLoadFactor \<le> 2147483647 \<longrightarrow>
            mul32 (tf m word) kLoadFactor = tf m word * kLoadFactor
            \<and> server_row (ConfigTable cfg kLoadFactor m tc) word =
                Some (if tf m word * kLoadFactor > num_topics cfg
                      then (Dense, num_topics cfg)
                      else (Sparse, tf m word * kLoadFactor))
            \<and> (tf m word * kLoadFactor = num_topics cfg \<longrightarrow>
                 server_row (ConfigTable cfg kLoadFactor m tc) word
                   = Some (Sparse, num_topics cfg)))"
proof -
  note rows = ConfigTable_loop_sets [OF assms, of kLoadFactor tc]
  have exact: "mul32 (tf m word) kLoadFactor = tf m word * kLoadFactor"
    if "- 2147483648 \<le> tf m word * kLoadFactor" "tf m word * kLoadFactor \<le> 2147483647"
    using that by (simp add: mul32_def wrap32_in_range)
  show ?thesis
    using rows exact by (simp add: ConfigTable_def)
qed

theorem ConfigTable_row_format_witness:
  "server_row (ConfigTable
       \<lparr>num_topics = 10, num_iterations = 1, num_vocabs = 3, asymmetric_alpha = -1,
        word_init = False, warm_start = False\<rparr> 2
       \<lparr>tf = (\<lambda>w. if w = 0 then 1 else if w = 1 then 5 else 50),
        local_tf = (\<lambda>w. if w = 0 then 1 else if w = 1 then 5 else 50)\<rparr>
       \<lparr>server_row = Map.empty, cache_row = Map.empty, aggregator_row = Map.empty\<rparr>) 1
     = Some (Sparse, 10)
   \<and> cache_row (ConfigTable
       \<lparr>num_topics = 10, num_iterations = 1, num_vocabs = 3, asymmetric_alpha = -1,
        word_init = False, warm_start = False\<rparr> 2
       \<lparr>tf = (\<lambda>w. if w = 0 then 1 else if w = 1 then 5 else 50),
        local_tf = (\<lambda>w. if w = 0 then 1 else if w = 1 then 5 else 50)\<rparr>
       \<lparr>server_row = Map.empty, cache_row = Map.empty, aggregator_row = Map.empty\<rparr>) 1
     = Some (Sparse, 10)
   \<and> server_row (ConfigTable
       \<lparr>num_topics = 1000, num_iterations = 1, num_vocabs = 1, asymmetric_alpha = -1,
        word_init = False, warm_start = False\<rparr> 2
       \<lparr>tf = (\<lambda>w. 1073741824), local_tf = (\<lambda>w. 0)\<rparr>
       \<lparr>server_row = Map.empty, cache_row = Map.empty, aggregator_row = Map.empty\<rparr>) 0
     = Some (Sparse, - 2147483648)"
proof -
  have small: "mul32 5 2 = 10" by (simp add: mul32_def wrap32_def)
  have big: "mul32 1073741824 2 = - 2147483648" by (simp add: mul32_def wrap32_def)
  note in_range = ConfigTable_row_format [of 1
       "\<lparr>num_topics = 10, num_iterations = 1, num_vocabs = 3, asymmetric_alpha = -1,
        word_init = False, warm_start = False\<rparr>"
       "\<lparr>tf = (\<lambda>w. if w = 0 then 1 else if w = 1 then 5 else 50),
        local_tf = (\<lambda>w. if w = 0 then 1 else if w = 1 then 5 else 50)\<rparr>" 2
       "\<lparr>server_row = Map.empty, cache_row = Map.empty, aggregator_row = Map.empty\<rparr>"]
  note wrapped = ConfigTable_row_format [of 0
       "\<lparr>num_topics = 1000, num_iterations = 1, num_vocabs = 1, asymmetric_alpha = -1,
        word_init = False, warm_start = False\<rparr>"
       "\<lparr>tf = (\<lambda>w. 1073741824), local_tf = (\<lambda>w. 0)\<rparr>" 2
       "\<lparr>server_row = Map.empty, cache_row = Map.empty, aggregator_row = Map.empty\<rparr>"]
  show ?thesis using in_range wrapped by (simp add: small big)
qed

section \<open>Properties of Initialize\<close>

lemma max_word_loop_fold: "max_word_loop doc m = fold max (map fst doc) m"
  by (induction doc arbitrary: m) (auto simp: max_def)

lemma max_word_loop_Max: "max_word_loop doc m = Max (set (m # map fst doc))"
  by (simp only: max_word_loop_fold Max.set_eq_fold)

lemma max_word_loop_nonneg:
  assumes "doc \<noteq> []" and "\<forall>tok\<in>set doc. 0 \<le> fst tok"
  shows "max_word_loop doc 0 = Max (set (map fst doc))" and "0 \<le> max_word_loop doc 0"
proof -
  have ne: "set (map fst doc) \<noteq> {}" using assms(1) by simp
  have fin: "finite (set (map fst doc))" by simp
  have "0 \<le> Max (set (map fst doc))"
    using assms Max_ge_iff [OF fin ne, of 0] by (cases doc) auto
  moreover have "max_word_loop doc 0 = max 0 (Max (set (map fst doc)))"
    using ne by (simp add: max_word_loop_Max)
  ultimately show "max_word_loop doc 0 = Max (set (map fst doc))" "0 \<le> max_word_loop doc 0"
    by simp_all
qed

lemma smod_nonneg_pos: "0 \<le> (a::int) \<Longrightarrow> 0 < b \<Longrightarrow> a smod b = a mod b"
  by (cases "a = 0") (simp_all add: signed_modulo_int_def sgn_if)

lemma counts_added_Nil: "counts_added [] s = s"
  by (auto simp: counts_added_def fun_eq_iff split: table_id.splits)

lemma counts_added_Cons:
  "counts_added ((w, t) # toks) s =
     counts_added toks (AddToServer kSummaryRow 0 t 1 (AddToServer kWordTopicTable w t 1 s))"
  by (auto simp: counts_added_def AddToServer_def fun_eq_iff split: table_id.splits)

lemma counts_added_append:
  "counts_added (xs @ ys) s = counts_added ys (counts_added xs s)"
  by (auto simp: counts_added_def fun_eq_iff split: table_id.splits)

lemma init_tokens_server:
  "snd (init_tokens cfg dt doc s) = counts_added (fst (init_tokens cfg dt doc s)) s"
proof (induction doc arbitrary: s)
  case Nil
  show ?case by (simp add: counts_added_Nil)
next
  case (Cons tok doc)
  obtain w t where tok: "tok = (w, t)" by (cases tok)
  show ?case
    using Cons.IH
    by (simp add: tok Let_def counts_added_Cons case_prod_beta)
qed

lemma init_tokens_doc:
  "\<not> warm_start cfg \<Longrightarrow> fst (init_tokens cfg dt doc s) = map (\<lambda>(w, t). (w, dt)) doc"
  by (induction doc arbitrary: s) (auto simp: Let_def case_prod_beta)

lemma Initialize_doc_spec:
  assumes "\<not> warm_start cfg" and "0 < num_topics cfg" and "\<forall>tok\<in>set doc. 0 \<le> fst tok"
  shows "Initialize_doc cfg doc s =
           Inr (assign_doc cfg doc, counts_added (assign_doc cfg doc) s)"
proof (cases "doc = []")
  case True
  then show ?thesis
    using assms(2) by (simp add: Initialize_doc_def assign_doc_def counts_added_Nil)
next
  case False
  have topic: "max_word_loop doc 0 smod num_topics cfg = max_word_topic cfg doc"
    using max_word_loop_nonneg [OF False assms(3)] assms(2)
    by (simp add: smod_nonneg_pos max_word_topic_def)
  have "fst (init_tokens cfg (max_word_topic cfg doc) doc s) = assign_doc cfg doc"
    using init_tokens_doc [OF assms(1)] by (simp add: assign_doc_def)
  then have "init_tokens cfg (max_word_topic cfg doc) doc s =
      (assign_doc cfg doc, counts_added (assign_doc cfg doc) s)"
    using init_tokens_server [of cfg "max_word_topic cfg doc" doc s]
    by (simp add: prod_eq_iff)
  then show ?thesis
    using assms(2) topic by (simp add: Initialize_doc_def)
qed

lemma Initialize_block_spec:
  assumes "\<not> warm_start cfg" and "0 < num_topics cfg"
  shows "\<forall>doc\<in>set docs. \<forall>tok\<in>set doc. 0 \<le> fst tok \<Longrightarrow>
      Initialize_block cfg docs s =
        Inr (map (assign_doc cfg) docs, counts_added (concat (map (assign_doc cfg) docs)) s)"
proof (induction docs arbitrary: s)
  case Nil
  show ?case by (simp add: counts_added_Nil)
next
  case (Cons doc docs)
  have d: "\<forall>tok\<in>set doc. 0 \<le> fst tok" and ds: "\<forall>doc\<in>set docs. \<forall>tok\<in>set doc. 0 \<le> fst tok"
    using Cons.prems by simp_all
  show ?case
    by (simp add: Initialize_doc_spec [OF assms d] Cons.IH [OF ds] counts_added_append)
qed

lemma Initialize_spec:
  assumes "\<not> warm_start cfg" and "0 < num_topics cfg"
  shows "\<forall>doc\<in>set (concat blocks). \<forall>tok\<in>set doc. 0 \<le> fst tok \<Longrightarrow>
      Initialize cfg blocks s =
        Inr (map (map (assign_doc cfg)) blocks,
             counts_added (concat (concat (map (map (assign_doc cfg)) blocks))) s)"
proof (induction blocks arbitrary: s)
  case Nil
  show ?case by (simp add: counts_added_Nil)
next
  case (Cons b blocks)
  have d: "\<forall>doc\<in>set b. \<forall>tok\<in>set doc. 0 \<le> fst tok"
   and ds: "\<forall>doc\<in>set (concat blocks). \<forall>tok\<in>set doc. 0 \<le> fst tok"
    using Cons.prems by auto
  show ?case
    by (simp add: Initialize_block_spec [OF assms d] Cons.IH [OF ds] counts_added_append)
qed

lemma assign_doc_words:
  "assign_doc cfg doc =
     map (\<lambda>w. (w, Max (set (map fst doc)) mod num_topics cfg)) (map fst doc)"
  by (simp add: assign_doc_def max_word_topic_def case_prod_beta)

lemma assign_doc_same_words:
  "map fst doc2 = map fst doc \<Longrightarrow> assign_doc cfg doc2 = assign_doc cfg doc"
  by (simp add: assign_doc_words)

lemma assign_blocks_same_words:
  assumes "map (map (map fst)) blocks2 = map (map (map fst)) blocks"
  shows "map (map (assign_doc cfg)) blocks2 = map (map (assign_doc cfg)) blocks"
proof -
  define f where "f = (\<lambda>ws. map (\<lambda>w. (w, Max (set ws) mod num_topics cfg)) ws)"
  have eq: "map (map (assign_doc cfg)) bs = map (map f) (map (map (map fst)) bs)" for bs
    by (simp add: assign_doc_words f_def comp_def)
  show ?thesis by (simp only: eq assms)
qed

lemma nonneg_words_same_words:
  fixes blocks blocks2 :: "document list list"
  assumes "map (map (map fst)) blocks2 = map (map (map fst)) blocks"
    and "\<forall>doc\<in>set (concat blocks). \<forall>tok\<in>set doc. 0 \<le> fst tok"
  shows "\<forall>doc\<in>set (concat blocks2). \<forall>tok\<in>set doc. 0 \<le> fst tok"
proof -
  define Q where "Q = (\<lambda>wss. \<forall>ds\<in>set wss. \<forall>ws\<in>set ds. \<forall>w\<in>set (ws :: int list). (0::int) \<le> w)"
  have eq: "(\<forall>doc\<in>set (concat bs). \<forall>tok\<in>set doc. 0 \<le> fst tok) \<longleftrightarrow>
      Q (map (map (map fst)) bs)" for bs :: "document list list"
    by (auto simp: Q_def)
  have "Q (map (map (map fst)) blocks)" using assms(2) eq [of blocks] by (rule_tac iffD1)
  then have "Q (map (map (map fst)) blocks2)" using assms(1) by simp
  then show ?thesis using eq [of blocks2] by (rule_tac iffD2)
qed

text \<open>
  C10. With \<open>warm_start\<close> false (and a positive \<open>num_topics\<close>, and word ids that are not
  negative), \<open>Initialize\<close> returns the documents in which every token of a document has
  the topic (maximum word id of the document) mod \<open>num_topics\<close>; the server has, for
  every token, one count more at the token's (word, topic) cell of \<open>kWordTopicTable\<close> and
  one more at the token's topic in row 0 of \<open>kSummaryRow\<close>; and the returned documents
  depend on the word lists only: any input with the same words, whatever its topics
  and its server, returns the same documents. The model of \<open>Initialize\<close> has no random
  number generator among its arguments: the source constructs one and never reads it.
\<close>

theorem Initialize_assigns_max_word_topic:
  assumes "\<not> warm_start cfg" and "0 < num_topics cfg"
    and "\<forall>doc\<in>set (concat blocks). \<forall>tok\<in>set doc. 0 \<le> fst tok"
  shows "Initialize cfg blocks s =
           Inr (map (map (assign_doc cfg)) blocks,
                counts_added (concat (concat (map (map (assign_doc cfg)) blocks))) s)
       \<and> (\<forall>blocks2 s2. map (map (map fst)) blocks2 = map (map (map fst)) blocks \<longrightarrow>
            map_sum id fst (Initialize cfg blocks2 s2) = Inr (map (map (assign_doc cfg)) blocks))"
proof -
  have "map_sum id fst (Initialize cfg blocks2 s2) = Inr (map (map (assign_doc cfg)) blocks)"
    if same: "map (map (map fst)) blocks2 = map (map (map fst)) blocks" for blocks2 s2
    using Initialize_spec [OF assms(1,2) nonneg_words_same_words [OF same assms(3)], of s2]
      assign_blocks_same_words [OF same, of cfg]
    by simp
  then show ?thesis using Initialize_spec [OF assms, of s] by blast
qed

theorem Initialize_assigns_max_word_topic_witness:
  "Initialize
     \<lparr>num_topics = 3, num_iterations = 1, num_vocabs = 8, asymmetric_alpha = -1,
      word_init = False, warm_start = False\<rparr>
     [[[(2, 0), (7, 0), (4, 0)], [(1, 5)]]] (\<lambda>cell. 0)
   = Inr ([[[(2, 1), (7, 1), (4, 1)], [(1, 1)]]],
          counts_added [(2, 1), (7, 1), (4, 1), (1, 1)] (\<lambda>cell. 0))
   \<and> counts_added [(2, 1), (7, 1), (4, 1), (1, 1)] (\<lambda>cell. 0) (kWordTopicTable, 7, 1) = 1
   \<and> counts_added [(2, 1), (7, 1), (4, 1), (1, 1)] (\<lambda>cell. 0) (kWordTopicTable, 7, 0) = 0
   \<and> counts_added [(2, 1), (7, 1), (4, 1), (1, 1)] (\<lambda>cell. 0) (kSummaryRow, 0, 1) = 4"
  using Initialize_assigns_max_word_topic
    [of "\<lparr>num_topics = 3, num_iterations = 1, num_vocabs = 8, asymmetric_alpha = -1,
          word_init = False, warm_start = False\<rparr>"
        "[[[(2, 0), (7, 0), (4, 0)], [(1, 5)]]]" "\<lambda>cell. 0"]
  by (simp add: assign_doc_def max_word_topic_def counts_added_def)

section \<open>Properties of the diagnostic check\<close>

lemma check_word_topics_None:
  "check_word_topics doc = None \<longleftrightarrow> list_all (\<lambda>tok. snd tok = fst tok) doc"
  by (induction doc rule: check_word_topics.induct) auto

lemma check_word_topics_fatal: "check_word_topics doc = Some e \<Longrightarrow> is_fatal e"
  by (induction doc rule: check_word_topics.induct) (auto split: if_splits)

lemma check_doc_topics_None:
  "check_doc_topics d doc = None \<longleftrightarrow> list_all (\<lambda>tok. snd tok = d) doc"
  by (induction d doc rule: check_doc_topics.induct) auto

lemma check_doc_topics_fatal: "check_doc_topics d doc = Some e \<Longrightarrow> is_fatal e"
  by (induction d doc rule: check_doc_topics.induct) (auto split: if_splits)

lemma diagnostic_check_None:
  "diagnostic_check cfg 0 0 doc = None \<longleftrightarrow> doc_invariant cfg doc"
  by (cases doc)
     (auto simp: diagnostic_check_def doc_invariant_def check_word_topics_None
        check_doc_topics_None)

lemma diagnostic_check_fatal: "diagnostic_check cfg iter sl doc = Some e \<Longrightarrow> is_fatal e"
  by (auto simp: diagnostic_check_def check_word_topics_fatal check_doc_topics_fatal
      split: if_splits list.splits)

lemma diagnostic_check_off:
  "iter \<noteq> 0 \<or> sl \<noteq> 0 \<Longrightarrow> diagnostic_check cfg iter sl doc = None"
  by (auto simp: diagnostic_check_def)

lemma sample_loop_all_ok:
  "\<forall>d\<in>set ids. diagnostic_check cfg iter sl (docs ! d) = None \<Longrightarrow>
     sample_loop cfg iter sl docs ids = (map SampleOneDoc ids, False)"
  by (induction ids) auto

lemma sample_loop_some_bad:
  "\<exists>d\<in>set ids. diagnostic_check cfg iter sl (docs ! d) \<noteq> None \<Longrightarrow>
     \<exists>e. is_fatal e \<and>
       sample_loop cfg iter sl docs ids =
         (map SampleOneDoc (takeWhile (\<lambda>d. diagnostic_check cfg iter sl (docs ! d) = None) ids)
            @ [e], True)"
proof (induction ids)
  case Nil
  then show ?case by simp
next
  case (Cons d ids)
  show ?case
  proof (cases "diagnostic_check cfg iter sl (docs ! d)")
    case None
    then have "\<exists>d\<in>set ids. diagnostic_check cfg iter sl (docs ! d) \<noteq> None"
      using Cons.prems by auto
    from Cons.IH [OF this] show ?thesis using None by auto
  next
    case (Some e)
    then show ?thesis using diagnostic_check_fatal [OF Some] by auto
  qed
qed

text \<open>
  C7. In a call of \<open>TrainIteration\<close> for iteration 0 and slice 0: if every document of the
  thread's partition satisfies the expected invariant (with \<open>word_init\<close>, every token's
  topic is its word id; without, every token's topic is the first token's topic), the
  thread samples all of them and goes on; otherwise the thread samples the documents
  before the first violating one, logs a fatal message for it and does nothing after
  it: the violating document is not sampled. And once a fatal message has been logged
  no thread can take another step.
\<close>

theorem diagnostic_check_halts_run:
  assumes "iteration blk = 0" and "slice blk = 0"
  shows "(list_all (\<lambda>d. doc_invariant cfg (data blk ! d))
            (doc_partition (length (data blk)) T tid) \<longrightarrow>
          TrainIteration cfg ev blk tid T wd ww =
            build_phase cfg blk tid T
            @ map SampleOneDoc (doc_partition (length (data blk)) T tid)
            @ evaluate_and_clear cfg ev blk tid T wd ww)
       \<and> (\<not> list_all (\<lambda>d. doc_invariant cfg (data blk ! d))
              (doc_partition (length (data blk)) T tid) \<longrightarrow>
          (\<exists>e. is_fatal e \<and>
             TrainIteration cfg ev blk tid T wd ww =
               build_phase cfg blk tid T
               @ map SampleOneDoc
                   (takeWhile (\<lambda>d. doc_invariant cfg (data blk ! d))
                      (doc_partition (length (data blk)) T tid))
               @ [e]))
       \<and> (\<forall>sys c. list_ex (\<lambda>th. list_ex is_fatal (fst th)) sys \<longrightarrow> sched_step c sys = None)"
proof -
  let ?ids = "doc_partition (length (data blk)) T tid"
  let ?ok = "\<lambda>d. doc_invariant cfg (data blk ! d)"
  have ok: "(\<lambda>d. diagnostic_check cfg 0 0 (data blk ! d) = None) = ?ok"
    by (simp add: diagnostic_check_None)
  have good: "TrainIteration cfg ev blk tid T wd ww =
      build_phase cfg blk tid T @ map SampleOneDoc ?ids @ evaluate_and_clear cfg ev blk tid T wd ww"
    if "list_all ?ok ?ids"
  proof -
    have "\<forall>d\<in>set ?ids. diagnostic_check cfg 0 0 (data blk ! d) = None"
      using that by (simp add: list_all_iff diagnostic_check_None)
    from sample_loop_all_ok [OF this] show ?thesis
      using assms by (simp add: TrainIteration_def)
  qed
  have bad: "\<exists>e. is_fatal e \<and> TrainIteration cfg ev blk tid T wd ww =
      build_phase cfg blk tid T @ map SampleOneDoc (takeWhile ?ok ?ids) @ [e]"
    if "\<not> list_all ?ok ?ids"
  proof -
    have "\<exists>d\<in>set ?ids. diagnostic_check cfg 0 0 (data blk ! d) \<noteq> None"
      using that by (simp add: list_all_iff diagnostic_check_None)
    from sample_loop_some_bad [OF this] obtain e where e: "is_fatal e"
      "sample_loop cfg 0 0 (data blk) ?ids =
         (map SampleOneDoc (takeWhile (\<lambda>d. diagnostic_check cfg 0 0 (data blk ! d) = None) ?ids)
            @ [e], True)"
      by blast
    have "TrainIteration cfg ev blk tid T wd ww =
        build_phase cfg blk tid T @ map SampleOneDoc (takeWhile ?ok ?ids) @ [e]"
      using e(2) assms by (simp add: TrainIteration_def ok)
    then show ?thesis using e(1) by blast
  qed
  have stop: "sched_step c sys = None"
    if "list_ex (\<lambda>th. list_ex is_fatal (fst th)) sys" for sys c
    using that by (cases c) (simp_all add: halted_def)
  show ?thesis using good bad stop by blast
qed

theorem diagnostic_check_halts_run_witness:
  "is_fatal (last (TrainIteration example_config example_eval (example_block 0) 0 1 False False))
   \<and> butlast (TrainIteration example_config example_eval (example_block 0) 0 1 False False)
       = build_phase example_config (example_block 0) 0 1 @ [SampleOneDoc 0]"
proof -
  let ?ok = "\<lambda>d. doc_invariant example_config (data (example_block 0) ! d)"
  have ids: "doc_partition 2 1 0 = [0, 1]" by code_simp
  have len: "length (data (example_block 0)) = 2" by (simp add: example_block_def)
  have d0: "?ok 0"
    by (simp add: doc_invariant_def example_config_def example_block_def)
  have d1: "\<not> ?ok 1"
    by (simp add: doc_invariant_def example_config_def example_block_def)
  have nall: "\<not> list_all ?ok (doc_partition (length (data (example_block 0))) 1 0)"
    unfolding len ids using d0 d1 by simp
  have tw: "takeWhile ?ok (doc_partition (length (data (example_block 0))) 1 0) = [0]"
    unfolding len ids using d0 d1 by simp
  have it: "iteration (example_block 0) = 0" "slice (example_block 0) = 0"
    by (simp_all add: example_block_def)
  from diagnostic_check_halts_run [OF it, of example_config 1 0 example_eval False False] nall
  have "\<exists>e. is_fatal e \<and>
     TrainIteration example_config example_eval (example_block 0) 0 1 False False =
       build_phase example_config (example_block 0) 0 1
       @ map SampleOneDoc (takeWhile ?ok (doc_partition (length (data (example_block 0))) 1 0))
       @ [e]"
    by blast
  then obtain e where "is_fatal e"
    "TrainIteration example_config example_eval (example_block 0) 0 1 False False =
       build_phase example_config (example_block 0) 0 1 @ [SampleOneDoc 0] @ [e]"
    unfolding tw by auto
  then show ?thesis by (simp add: butlast_append)
qed

section \<open>Events of a thread, and the evaluation gate\<close>

lemma sample_loop_events:
  "e \<in> set (fst (sample_loop cfg iter sl docs ids)) \<Longrightarrow>
     (\<exists>d\<in>set ids. e = SampleOneDoc d) \<or> is_fatal e"
proof (induction ids)
  case Nil
  then show ?case by simp
next
  case (Cons d ids)
  show ?case
  proof (cases "diagnostic_check cfg iter sl (docs ! d)")
    case None
    then have "e = SampleOneDoc d \<or> e \<in> set (fst (sample_loop cfg iter sl docs ids))"
      using Cons.prems by (simp add: case_prod_beta)
    then show ?thesis using Cons.IH by auto
  next
    case (Some f)
    then have "e = f" using Cons.prems by simp
    then show ?thesis using diagnostic_check_fatal [OF Some] by simp
  qed
qed

lemma sample_loop_halted_iff:
  "snd (sample_loop cfg iter sl docs ids) \<longleftrightarrow>
     list_ex is_fatal (fst (sample_loop cfg iter sl docs ids))"
proof (induction ids)
  case Nil
  show ?case by simp
next
  case (Cons d ids)
  show ?case
  proof (cases "diagnostic_check cfg iter sl (docs ! d)")
    case None
    then show ?thesis using Cons.IH by (simp add: case_prod_beta)
  next
    case (Some f)
    then show ?thesis using diagnostic_check_fatal [OF Some] by simp
  qed
qed

lemma sample_loop_not_halted:
  "iter \<noteq> 0 \<or> sl \<noteq> 0 \<Longrightarrow>
     sample_loop cfg iter sl docs ids = (map SampleOneDoc ids, False)"
  by (rule sample_loop_all_ok) (simp add: diagnostic_check_off)

lemma build_phase_events:
  "e \<in> set (build_phase cfg blk tid T) \<Longrightarrow>
     e = BarrierWait \<or> e = AliasInitAsymmetricAlpha \<or> (\<exists>w. e = AliasBuild w)
     \<or> (\<exists>b s. e = AliasInit b s)"
  by (auto simp: build_phase_def install_index_def build_slots_def split: if_splits)

lemma Evaluate_events:
  "e \<in> set (Evaluate ev blk tid T wd ww) \<Longrightarrow>
     e \<in> {BarrierWait, MutexLock, MutexUnlock, LogDocLlh, ResetDocLlh, LogWordLlh,
          ResetWordLlh, LogNormalizedLlh} \<or> (\<exists>x. e = AddDocLlh x) \<or> (\<exists>x. e = AddWordLlh x)"
  by (auto simp: Evaluate_def evaluate_doc_def evaluate_word_def evaluate_normalize_def split: if_splits)

lemma build_phase_no_fatal: "e \<in> set (build_phase cfg blk tid T) \<Longrightarrow> \<not> is_fatal e"
  using build_phase_events [of e cfg blk tid T] by auto

lemma Evaluate_no_fatal: "e \<in> set (Evaluate ev blk tid T wd ww) \<Longrightarrow> \<not> is_fatal e"
  using Evaluate_events [of e ev blk tid T wd ww] by auto

lemma evaluate_and_clear_no_fatal:
  "e \<in> set (evaluate_and_clear cfg ev blk tid T wd ww) \<Longrightarrow> \<not> is_fatal e"
  using Evaluate_no_fatal [of e ev blk tid T wd ww]
  by (auto simp: evaluate_and_clear_def split: if_splits)

lemma smod_2_even: "(k::int) smod 2 = 0 \<longleftrightarrow> even k"
  by (auto simp: signed_modulo_int_def sgn_if even_iff_mod_2_eq_zero)

lemma TrainIteration_fatal_iff:
  "list_ex is_fatal (TrainIteration cfg ev blk tid T wd ww) \<longleftrightarrow>
     snd (sample_loop cfg (iteration blk) (slice blk) (data blk)
            (doc_partition (length (data blk)) T tid))"
proof -
  have b: "\<not> list_ex is_fatal (build_phase cfg blk tid T)"
    using build_phase_no_fatal by (auto simp: list_ex_iff)
  have e: "\<not> list_ex is_fatal (evaluate_and_clear cfg ev blk tid T wd ww)"
    using evaluate_and_clear_no_fatal by (auto simp: list_ex_iff)
  show ?thesis
    using b e sample_loop_halted_iff [of cfg "iteration blk" "slice blk" "data blk"
        "doc_partition (length (data blk)) T tid"]
    by (auto simp: TrainIteration_def Let_def list_ex_append)
qed

lemma CallEvaluate_iff:
  "CallEvaluate \<in> set (TrainIteration cfg ev blk tid T wd ww) \<longleftrightarrow>
     iteration blk smod 2 = 0 \<and> \<not> list_ex is_fatal (TrainIteration cfg ev blk tid T wd ww)"
proof -
  have b: "CallEvaluate \<notin> set (build_phase cfg blk tid T)"
    using build_phase_events [of CallEvaluate cfg blk tid T] by auto
  have s: "CallEvaluate \<notin> set (fst (sample_loop cfg i sl docs ids))" for i sl docs ids
    using sample_loop_events [of CallEvaluate cfg i sl docs ids] by auto
  show ?thesis
    unfolding TrainIteration_fatal_iff
    using b s by (auto simp: TrainIteration_def Let_def evaluate_and_clear_def)
qed

text \<open>
  C6. A thread calls \<open>Evaluate\<close> in \<open>TrainIteration\<close> exactly when the iteration index is
  even: it never calls it on an odd iteration, and on an even iteration it calls it
  unless the diagnostic check of iteration 0 has ended the run with a fatal message
  before. The parity test is the source's \<open>iter % 2 == 0\<close> with C++'s truncating \<open>%\<close>.
\<close>

theorem Evaluate_entered_on_even_iterations:
  "(CallEvaluate \<in> set (TrainIteration cfg ev blk tid T wd ww) \<longrightarrow> even (iteration blk))
   \<and> (iteration blk \<noteq> 0 \<or> \<not> list_ex is_fatal (TrainIteration cfg ev blk tid T wd ww) \<longrightarrow>
        (CallEvaluate \<in> set (TrainIteration cfg ev blk tid T wd ww)
           \<longleftrightarrow> even (iteration blk)))"
proof -
  have "\<not> list_ex is_fatal (TrainIteration cfg ev blk tid T wd ww)" if "iteration blk \<noteq> 0"
    unfolding TrainIteration_fatal_iff using that by (simp add: sample_loop_not_halted)
  then show ?thesis using CallEvaluate_iff [of cfg ev blk tid T wd ww] smod_2_even by blast
qed

theorem Evaluate_entered_on_even_iterations_witness:
  "CallEvaluate \<in> set (TrainIteration example_config example_eval (example_block 2) 0 1 False False)
   \<and> CallEvaluate \<notin> set (TrainIteration example_config example_eval (example_block 1) 0 1 False False)"
proof -
  have i2: "iteration (example_block 2) = 2" and i1: "iteration (example_block 1) = 1"
    by (simp_all add: example_block_def)
  have "CallEvaluate \<in> set (TrainIteration example_config example_eval (example_block 2) 0 1 False False)"
    using Evaluate_entered_on_even_iterations
      [of example_config example_eval "example_block 2" 0 1 False False]
    by (simp add: i2)
  moreover
  have "CallEvaluate \<notin> set (TrainIteration example_config example_eval (example_block 1) 0 1 False False)"
    using Evaluate_entered_on_even_iterations
      [of example_config example_eval "example_block 1" 0 1 False False]
    by (simp add: i1)
  ultimately show ?thesis by simp
qed

section \<open>Schedules keep the threads in step\<close>

lemma prefix_by_event:
  assumes "done @ rest = p @ q" and "e \<in> set done" and "e \<notin> set p"
  shows "\<exists>us. done = p @ us"
proof -
  from assms(1) obtain us where "done = p @ us \<or> done @ us = p"
    by (auto simp: append_eq_append_conv2)
  then show ?thesis using assms(2,3) by auto
qed

lemma prefix_by_count:
  assumes "done @ rest = p @ q" and "count_list p x < count_list done x"
  shows "\<exists>us. done = p @ us"
proof -
  from assms(1) obtain us where "done = p @ us \<or> done @ us = p"
    by (auto simp: append_eq_append_conv2)
  then show ?thesis
  proof
    assume "done = p @ us" then show ?thesis by blast
  next
    assume "done @ us = p"
    then have "count_list p x = count_list done x + count_list us x" by auto
    then show ?thesis using assms(2) by simp
  qed
qed

lemma sched_step_Run:
  assumes "sched_step (Run i) sys = Some sys'"
  shows "\<exists>e rest. i < length sys \<and> snd (sys ! i) = e # rest \<and> e \<noteq> BarrierWait
    \<and> sys' = sys[i := (fst (sys ! i) @ [e], rest)]"
  using assms by (auto split: if_splits list.splits)

lemma sched_step_Release:
  assumes "sched_step Release sys = Some sys'" 
  shows "list_all at_barrier sys \<and>
     sys' = map (\<lambda>th. (fst th @ [BarrierWait], tl (snd th))) sys"
  using assms  by (auto split: if_splits)

lemma Run_keeps: 
  assumes i: "i < length sys" and sn: "snd (sys ! i) = e # rest" and ne: "e \<noteq> BarrierWait"
    and sys': "sys' = sys[i := (fst (sys ! i) @ [e], rest)]" and k: "k < length sys"
  shows "fst (sys' ! k) @ snd (sys' ! k) = fst (sys ! k) @ snd (sys ! k)"
    "count_list (fst (sys' ! k)) BarrierWait = count_list (fst (sys ! k)) BarrierWait"
proof -
  show "fst (sys' ! k) @ snd (sys' ! k) = fst (sys ! k) @ snd (sys ! k)"
  proof (cases "k = i")
    case True
    then show ?thesis using i sn unfolding sys' by simp
  next
    case False
    then show ?thesis unfolding sys' by simp
  qed
  show "count_list (fst (sys' ! k)) BarrierWait = count_list (fst (sys ! k)) BarrierWait"
  proof (cases "k = i")
    case True
    then show ?thesis using i ne unfolding sys' by simp
  next
    case False
    then show ?thesis unfolding sys' by simp
  qed
qed


lemma Release_keeps:
  assumes all: "list_all at_barrier sys"
    and sys': "sys' = map (\<lambda>th. (fst th @ [BarrierWait], tl (snd th))) sys"
    and k: "k < length sys"
  shows "fst (sys' ! k) @ snd (sys' ! k) = fst (sys ! k) @ snd (sys ! k)"
    "count_list (fst (sys' ! k)) BarrierWait = Suc (count_list (fst (sys ! k)) BarrierWait)"
proof -
  have "at_barrier (sys ! k)" using all k by (simp add: list_all_length)
  then obtain r where r: "snd (sys ! k) = BarrierWait # r"
    by (auto simp: at_barrier_def split: list.splits)
  show "fst (sys' ! k) @ snd (sys' ! k) = fst (sys ! k) @ snd (sys ! k)"
    using k r unfolding sys' by simp
  show "count_list (fst (sys' ! k)) BarrierWait = Suc (count_list (fst (sys ! k)) BarrierWait)"
    using k unfolding sys' by simp
qed

lemma in_step_init: "in_step progs (map (\<lambda>p. ([], p)) progs)"
  by (simp add: in_step_def)

lemma sched_step_in_step:
  assumes step: "sched_step c sys = Some sys'" and inv: "in_step progs sys"
  shows "in_step progs sys'"
proof -
  have len: "length sys = length progs"
    and cat: "\<And>k. k < length progs \<Longrightarrow> fst (sys ! k) @ snd (sys ! k) = progs ! k"
    and cnt: "\<And>k j. k < length progs \<Longrightarrow> j < length progs \<Longrightarrow>
      count_list (fst (sys ! k)) BarrierWait = count_list (fst (sys ! j)) BarrierWait"
    using inv unfolding in_step_def by blast+
  show ?thesis
  proof (cases c)
    case (Run i)
    from sched_step_Run [OF step [unfolded Run]] obtain e rest where
      i: "i < length sys" and sn: "snd (sys ! i) = e # rest" and ne: "e \<noteq> BarrierWait"
      and sys': "sys' = sys[i := (fst (sys ! i) @ [e], rest)]"
      by blast
    have len': "length sys' = length progs" unfolding sys' using len by simp
    note keep = Run_keeps [OF i sn ne sys']
    show ?thesis
      unfolding in_step_def
    proof (intro conjI allI impI)
      show "length sys' = length progs" by (rule len')
    next
      fix k assume k: "k < length progs"
      then show "fst (sys' ! k) @ snd (sys' ! k) = progs ! k"
        using keep(1) [of k] cat [of k] len by simp
    next
      fix k j assume "k < length progs" "j < length progs"
      then show "count_list (fst (sys' ! k)) BarrierWait
          = count_list (fst (sys' ! j)) BarrierWait"
        using keep(2) [of k] keep(2) [of j] cnt [of k j] len by simp
    qed
  next
    case Release
    from sched_step_Release [OF step [unfolded Release]]
    have all: "list_all at_barrier sys"
      and sys': "sys' = map (\<lambda>th. (fst th @ [BarrierWait], tl (snd th))) sys"
      by blast+
    have len': "length sys' = length progs" unfolding sys' using len by simp
    note keep = Release_keeps [OF all sys']
    show ?thesis
      unfolding in_step_def
    proof (intro conjI allI impI)
      show "length sys' = length progs" by (rule len')
    next
      fix k assume k: "k < length progs"
      then show "fst (sys' ! k) @ snd (sys' ! k) = progs ! k"
        using keep(1) [of k] cat [of k] len by simp
    next
      fix k j assume "k < length progs" "j < length progs"
      then show "count_list (fst (sys' ! k)) BarrierWait
          = count_list (fst (sys' ! j)) BarrierWait"
        using keep(2) [of k] keep(2) [of j] cnt [of k j] len by simp
    qed
  qed
qed

lemma run_schedule_in_step:
  "run_schedule cs sys = Some sys' \<Longrightarrow> in_step progs sys \<Longrightarrow> in_step progs sys'"
proof (induction cs arbitrary: sys)
  case Nil
  then show ?case by simp
next
  case (Cons c cs)
  then obtain sys1 where s1: "sched_step c sys = Some sys1" "run_schedule cs sys1 = Some sys'"
    by (auto split: option.splits)
  from Cons.IH [OF s1(2) sched_step_in_step [OF s1(1) Cons.prems(2)]] show ?case .
qed

lemma in_stepD:
  assumes "in_step progs sys"
  shows "length sys = length progs"
    and "\<And>k. k < length progs \<Longrightarrow> fst (sys ! k) @ snd (sys ! k) = progs ! k"
    and "\<And>k j. k < length progs \<Longrightarrow> j < length progs \<Longrightarrow>
      count_list (fst (sys ! k)) BarrierWait = count_list (fst (sys ! j)) BarrierWait"
  using assms unfolding in_step_def by blast+

lemma barrier_passed:
  assumes inv: "in_step progs sys" and i: "i < length progs" and j: "j < length progs"
    and pi: "progs ! i = p @ q" and e: "e \<in> set (fst (sys ! i))" "e \<notin> set p"
    and pj: "progs ! j = p' @ q'"
    and c: "count_list p' BarrierWait < count_list p BarrierWait"
  shows "\<exists>us. fst (sys ! j) = p' @ us"
proof -
  have ci: "fst (sys ! i) @ snd (sys ! i) = p @ q"
    using in_stepD(2) [OF inv i] pi by (rule trans)
  have cj: "fst (sys ! j) @ snd (sys ! j) = p' @ q'"
    using in_stepD(2) [OF inv j] pj by (rule trans)
  note eq = in_stepD(3) [OF inv i j]
  from prefix_by_event [OF ci e] obtain us where us: "fst (sys ! i) = p @ us" by blast
  have "count_list p BarrierWait \<le> count_list (fst (sys ! i)) BarrierWait"
    unfolding us by simp
  then have "count_list p' BarrierWait < count_list (fst (sys ! j)) BarrierWait"
    using c eq by linarith
  from prefix_by_count [OF cj this] show ?thesis .
qed

lemma train_threads_in_step:
  assumes "run_schedule sched (train_threads cfg ev blk T wd ww) = Some sys"
  shows "in_step (map (\<lambda>tid. TrainIteration cfg ev blk tid T (wd tid) (ww tid)) [0..<T]) sys"
proof -
  let ?progs = "map (\<lambda>tid. TrainIteration cfg ev blk tid T (wd tid) (ww tid)) [0..<T]"
  have "train_threads cfg ev blk T wd ww = map (\<lambda>p. ([], p)) ?progs"
    by (simp add: train_threads_def)
  then have "run_schedule sched (map (\<lambda>p. ([], p)) ?progs) = Some sys"
    using assms by simp
  from run_schedule_in_step [OF this in_step_init] show ?thesis .
qed

lemma install_index_no_wait: "count_list (install_index blk tid) BarrierWait = 0"
  by (simp add: install_index_def)

lemma build_slots_no_wait: "count_list (build_slots cfg blk tid T) BarrierWait = 0"
  by (rule count_notin) (auto simp: build_slots_def)

lemma sample_loop_no_wait:
  "count_list (fst (sample_loop cfg iter sl docs ids)) BarrierWait = 0"
proof (rule count_notin, rule notI)
  assume "BarrierWait \<in> set (fst (sample_loop cfg iter sl docs ids))"
  from sample_loop_events [OF this] show False by auto
qed

lemma build_phase_waits: "count_list (build_phase cfg blk tid T) BarrierWait = 2"
  by (simp add: build_phase_def install_index_no_wait build_slots_no_wait)

lemma TrainIteration_after_build:
  "\<exists>q. TrainIteration cfg ev blk tid T wd ww = build_phase cfg blk tid T @ q"
  unfolding TrainIteration_def Let_def by (rule exI) (rule refl)

lemma TrainIteration_after_install:
  "\<exists>q. TrainIteration cfg ev blk tid T wd ww = install_index blk tid @ q"
  "\<exists>q. TrainIteration cfg ev blk tid T wd ww = (install_index blk tid @ [BarrierWait]) @ q"
  "\<exists>q. TrainIteration cfg ev blk tid T wd ww =
       (install_index blk tid @ [BarrierWait] @ build_slots cfg blk tid T) @ q"
  unfolding TrainIteration_def Let_def build_phase_def append_assoc
  by (rule exI, rule refl)+

section \<open>Order of the build phase\<close>

lemma evaluate_and_clear_events:
  "e \<in> set (evaluate_and_clear cfg ev blk tid T wd ww) \<Longrightarrow>
     e = CallEvaluate \<or> e = AliasClear \<or> e \<in> set (Evaluate ev blk tid T wd ww)"
  by (auto simp: evaluate_and_clear_def split: if_splits)

lemma TrainIteration_set:
  "set (TrainIteration cfg ev blk tid T wd ww) =
     set (build_phase cfg blk tid T)
     \<union> set (fst (sample_loop cfg (iteration blk) (slice blk) (data blk)
                   (doc_partition (length (data blk)) T tid)))
     \<union> (if snd (sample_loop cfg (iteration blk) (slice blk) (data blk)
                   (doc_partition (length (data blk)) T tid))
        then {} else set (evaluate_and_clear cfg ev blk tid T wd ww))"
  by (simp add: TrainIteration_def Let_def Un_assoc)

lemma alias_calls_in_build_phase:
  assumes "e \<in> set (TrainIteration cfg ev blk tid T wd ww)"
    and "(\<exists>b s. e = AliasInit b s) \<or> (\<exists>w. e = AliasBuild w) \<or> e = AliasInitAsymmetricAlpha"
  shows "e \<in> set (build_phase cfg blk tid T)"
proof -
  have "e \<notin> set (fst (sample_loop cfg i sl docs ids))" for i sl docs ids
    using sample_loop_events [of e cfg i sl docs ids] assms(2) by auto
  moreover have "e \<notin> set (evaluate_and_clear cfg ev blk tid T wd ww)"
    using evaluate_and_clear_events [of e cfg ev blk tid T wd ww]
      Evaluate_events [of e ev blk tid T wd ww] assms(2) by auto
  ultimately show ?thesis using assms(1) unfolding TrainIteration_set by (auto split: if_splits)
qed

lemma build_phase_subset: "set (build_phase cfg blk tid T) \<subseteq> set (TrainIteration cfg ev blk tid T wd ww)"
  unfolding TrainIteration_set by blast

lemma AliasInit_in_build_phase:
  "AliasInit b s \<in> set (build_phase cfg blk tid T) \<longleftrightarrow> tid = 0 \<and> b = block blk \<and> s = slice blk"
  by (auto simp: build_phase_def install_index_def build_slots_def)

lemma InitAsymmetricAlpha_in_build_phase:
  "AliasInitAsymmetricAlpha \<in> set (build_phase cfg blk tid T) \<longleftrightarrow>
     tid = 0 \<and> asymmetric_alpha cfg \<ge> 0"
  by (auto simp: build_phase_def install_index_def build_slots_def)

lemma dense_Build_in_build_phase:
  assumes "0 < T" and "\<forall>p<vocab_end (meta blk) (slice blk). 0 \<le> vocab_words (meta blk) ! p"
  shows "AliasBuild (- 1) \<in> set (build_phase cfg blk tid T) \<longleftrightarrow> tid = 0"
proof
  assume "AliasBuild (- 1) \<in> set (build_phase cfg blk tid T)"
  then have "(\<exists>p\<in>set (word_partition (vocab_begin (meta blk) (slice blk))
                    (vocab_end (meta blk) (slice blk)) T tid).
                vocab_words (meta blk) ! p = - 1) \<or> tid = 0"
    by (auto simp: build_phase_def install_index_def build_slots_def split: if_splits)
  moreover have "vocab_words (meta blk) ! p \<noteq> - 1"
    if "p \<in> set (word_partition (vocab_begin (meta blk) (slice blk))
                    (vocab_end (meta blk) (slice blk)) T tid)" for p
  proof -
    have "p < vocab_end (meta blk) (slice blk)"
      using that set_round_robin [OF assms(1)] by (auto simp: word_partition_def)
    then show ?thesis using assms(2) by fastforce
  qed
  ultimately show "tid = 0" by blast
next
  assume "tid = 0"
  then show "AliasBuild (- 1) \<in> set (build_phase cfg blk tid T)"
    by (simp add: build_phase_def build_slots_def)
qed


lemma train_progs_nth:
  "i < T \<Longrightarrow>
     map (\<lambda>tid. TrainIteration cfg ev blk tid T (wd tid) (ww tid)) [0..<T] ! i =
       TrainIteration cfg ev blk i T (wd i) (ww i)"
  by simp

lemma built_implies_installed:
  assumes run: "run_schedule sched (train_threads cfg ev blk T wd ww) = Some sys"
    and tid: "tid < T" and e: "AliasBuild w \<in> set (fst (sys ! tid))"
  shows "AliasInit (block blk) (slice blk) \<in> set (fst (sys ! 0))"
proof -
  let ?progs = "map (\<lambda>tid. TrainIteration cfg ev blk tid T (wd tid) (ww tid)) [0..<T]"
  have inv: "in_step ?progs sys" by (rule train_threads_in_step [OF run])
  have T: "0 < T" using tid by simp
  have i: "tid < length ?progs" and j: "0 < length ?progs" using tid by simp_all
  obtain q where q: "?progs ! tid = (install_index blk tid @ [BarrierWait]) @ q"
    using TrainIteration_after_install(2) [of cfg ev blk tid T "wd tid" "ww tid"]
    unfolding train_progs_nth [OF tid] by blast
  obtain q' where q': "?progs ! 0 = install_index blk 0 @ q'"
    using TrainIteration_after_install(1) [of cfg ev blk 0 T "wd 0" "ww 0"]
    unfolding train_progs_nth [OF T] by blast
  have notin: "AliasBuild w \<notin> set (install_index blk tid @ [BarrierWait])"
    by (simp add: install_index_def)
  have cnt: "count_list (install_index blk 0) BarrierWait
      < count_list (install_index blk tid @ [BarrierWait]) BarrierWait"
    by (simp add: install_index_no_wait)
  from barrier_passed [OF inv i j q e notin q' cnt]
  obtain us where "fst (sys ! 0) = install_index blk 0 @ us" by blast
  then show ?thesis by (simp add: install_index_def)
qed

lemma sampled_implies_built:
  assumes run: "run_schedule sched (train_threads cfg ev blk T wd ww) = Some sys"
    and tid: "tid < T" and e: "SampleOneDoc d \<in> set (fst (sys ! tid))" and jT: "j < T"
  shows "set (build_phase cfg blk j T) \<subseteq> set (fst (sys ! j))"
proof -
  let ?progs = "map (\<lambda>tid. TrainIteration cfg ev blk tid T (wd tid) (ww tid)) [0..<T]"
  have inv: "in_step ?progs sys" by (rule train_threads_in_step [OF run])
  have i: "tid < length ?progs" and j: "j < length ?progs" using tid jT by simp_all
  obtain q where q: "?progs ! tid = build_phase cfg blk tid T @ q"
    using TrainIteration_after_build [of cfg ev blk tid T "wd tid" "ww tid"]
    unfolding train_progs_nth [OF tid] by blast
  obtain q' where q': "?progs ! j =
      (install_index blk j @ [BarrierWait] @ build_slots cfg blk j T) @ q'"
    using TrainIteration_after_install(3) [of cfg ev blk j T "wd j" "ww j"]
    unfolding train_progs_nth [OF jT] by blast
  have notin: "SampleOneDoc d \<notin> set (build_phase cfg blk tid T)"
    using build_phase_events [of "SampleOneDoc d" cfg blk tid T] by auto
  have cnt: "count_list (install_index blk j @ [BarrierWait] @ build_slots cfg blk j T) BarrierWait
      < count_list (build_phase cfg blk tid T) BarrierWait"
    by (simp add: install_index_no_wait build_slots_no_wait build_phase_waits)
  from barrier_passed [OF inv i j q e notin q' cnt]
  obtain us where "fst (sys ! j) = (install_index blk j @ [BarrierWait] @ build_slots cfg blk j T) @ us"
    by blast
  then show ?thesis by (auto simp: build_phase_def)
qed

text \<open>
  C1. In every call of \<open>TrainIteration\<close> by \<open>T\<close> threads on a data block whose slice
  words are valid (not negative) word ids, under any schedule:
  only thread 0 calls \<open>Init\<close>, only thread 0 calls \<open>Build(-1)\<close>, and
  \<open>InitAsymmetricAlpha\<close> is called by thread 0, exactly when
  \<open>Config::asymmetric_alpha >= 0\<close>; whenever a thread has built a slot, thread 0 has
  installed the index before (the first barrier); and whenever a thread has sampled a
  document, every thread has finished its whole build phase before (the second
  barrier): all sparse slots of the slice, the dense slot and, when configured, the
  asymmetric-alpha slot are built.
\<close>

theorem TrainIteration_phase_order:
  assumes "run_schedule sched (train_threads cfg ev blk T wait_doc wait_word) = Some sys"
    and "tid < T"
    and "\<forall>p<vocab_end (meta blk) (slice blk). 0 \<le> vocab_words (meta blk) ! p"
  shows "((\<exists>b s. AliasInit b s
              \<in> set (TrainIteration cfg ev blk tid T (wait_doc tid) (wait_word tid)))
            \<longleftrightarrow> tid = 0)
       \<and> (AliasBuild (- 1) \<in> set (TrainIteration cfg ev blk tid T (wait_doc tid) (wait_word tid))
            \<longleftrightarrow> tid = 0)
       \<and> (AliasInitAsymmetricAlpha
              \<in> set (TrainIteration cfg ev blk tid T (wait_doc tid) (wait_word tid))
            \<longleftrightarrow> tid = 0 \<and> asymmetric_alpha cfg \<ge> 0)
       \<and> ((\<exists>w. AliasBuild w \<in> set (fst (sys ! tid))) \<longrightarrow>
            AliasInit (block blk) (slice blk) \<in> set (fst (sys ! 0)))
       \<and> ((\<exists>d. SampleOneDoc d \<in> set (fst (sys ! tid))) \<longrightarrow>
            (\<forall>j<T. set (build_phase cfg blk j T) \<subseteq> set (fst (sys ! j)))
            \<and> AliasBuild (- 1) \<in> set (fst (sys ! 0))
            \<and> (asymmetric_alpha cfg \<ge> 0 \<longrightarrow>
                 AliasInitAsymmetricAlpha \<in> set (fst (sys ! 0))))"
proof -
  let ?trace = "TrainIteration cfg ev blk tid T (wait_doc tid) (wait_word tid)"
  have T: "0 < T" using assms(2) by simp
  have in_build: "e \<in> set ?trace \<longleftrightarrow> e \<in> set (build_phase cfg blk tid T)"
    if "(\<exists>b s. e = AliasInit b s) \<or> (\<exists>w. e = AliasBuild w) \<or> e = AliasInitAsymmetricAlpha"
    for e
    using alias_calls_in_build_phase [OF _ that, of cfg ev blk tid T "wait_doc tid" "wait_word tid"]
      build_phase_subset [of cfg blk tid T ev "wait_doc tid" "wait_word tid"]
    by blast
  have a: "(\<exists>b s. AliasInit b s \<in> set ?trace) \<longleftrightarrow> tid = 0"
    using in_build AliasInit_in_build_phase [of _ _ cfg blk tid T] by blast
  have b: "AliasBuild (- 1) \<in> set ?trace \<longleftrightarrow> tid = 0"
    using in_build [of "AliasBuild (- 1)"] dense_Build_in_build_phase [OF T assms(3), of cfg tid]
    by blast
  have c: "AliasInitAsymmetricAlpha \<in> set ?trace \<longleftrightarrow> tid = 0 \<and> asymmetric_alpha cfg \<ge> 0"
    using in_build [of AliasInitAsymmetricAlpha]
      InitAsymmetricAlpha_in_build_phase [of cfg blk tid T]
    by blast
  have d: "AliasInit (block blk) (slice blk) \<in> set (fst (sys ! 0))"
    if "\<exists>w. AliasBuild w \<in> set (fst (sys ! tid))"
    using that built_implies_installed [OF assms(1,2)] by blast
  have e: "(\<forall>j<T. set (build_phase cfg blk j T) \<subseteq> set (fst (sys ! j)))
      \<and> AliasBuild (- 1) \<in> set (fst (sys ! 0))
      \<and> (asymmetric_alpha cfg \<ge> 0 \<longrightarrow> AliasInitAsymmetricAlpha \<in> set (fst (sys ! 0)))"
    if "\<exists>d. SampleOneDoc d \<in> set (fst (sys ! tid))"
  proof -
    from that obtain d where d: "SampleOneDoc d \<in> set (fst (sys ! tid))" by blast
    have all: "set (build_phase cfg blk j T) \<subseteq> set (fst (sys ! j))" if "j < T" for j
      by (rule sampled_implies_built [OF assms(1,2) d that])
    have "AliasBuild (- 1) \<in> set (build_phase cfg blk 0 T)"
      using dense_Build_in_build_phase [OF T assms(3), of cfg 0] by simp
    moreover have "AliasInitAsymmetricAlpha \<in> set (build_phase cfg blk 0 T)"
      if "asymmetric_alpha cfg \<ge> 0"
      using that InitAsymmetricAlpha_in_build_phase [of cfg blk 0 T] by simp
    ultimately show ?thesis using all all [OF T] by blast
  qed
  show ?thesis using a b c d e by blast
qed

theorem TrainIteration_phase_order_witness:
  "run_schedule [Run 0, Release, Run 0, Run 0, Run 0, Run 1, Release, Run 1]
     (train_threads example_config example_eval (example_block 1) 2 (\<lambda>t. t = 0) (\<lambda>t. t = 0))
   = Some [([AliasInit 0 0, BarrierWait, AliasBuild 1, AliasBuild (- 1),
             AliasInitAsymmetricAlpha, BarrierWait], [SampleOneDoc 0]),
           ([BarrierWait, AliasBuild 2, BarrierWait, SampleOneDoc 1], [])]
   \<and> AliasBuild (- 1)
       \<notin> set (TrainIteration example_config example_eval (example_block 1) 1 2 False False)"
proof -
  let ?sys = "[([AliasInit 0 0, BarrierWait, AliasBuild 1, AliasBuild (- 1),
                 AliasInitAsymmetricAlpha, BarrierWait], [SampleOneDoc 0]),
               ([BarrierWait, AliasBuild 2, BarrierWait, SampleOneDoc 1], [])]"
  have run: "run_schedule [Run 0, Release, Run 0, Run 0, Run 0, Run 1, Release, Run 1]
     (train_threads example_config example_eval (example_block 1) 2 (\<lambda>t. t = 0) (\<lambda>t. t = 0))
     = Some ?sys"
    by code_simp
  have tid: "(1::nat) < 2" by simp
  have words: "\<forall>p<vocab_end (meta (example_block 1)) (slice (example_block 1)).
      0 \<le> vocab_words (meta (example_block 1)) ! p"
    by (simp add: example_block_def example_vocab_def less_Suc_eq numeral_2_eq_2)
  from TrainIteration_phase_order [OF run tid words]
  have "AliasBuild (- 1)
      \<notin> set (TrainIteration example_config example_eval (example_block 1) 1 2 False False)"
    by simp
  then show ?thesis using run by simp
qed

section \<open>Clearing the alias table\<close>

lemma barrier_count:
  assumes inv: "in_step progs sys" and i: "i < length progs" and j: "j < length progs"
    and pi: "progs ! i = p @ q" and e: "e \<in> set (fst (sys ! i))" "e \<notin> set p"
  shows "count_list p BarrierWait \<le> count_list (fst (sys ! j)) BarrierWait"
proof -
  have ci: "fst (sys ! i) @ snd (sys ! i) = p @ q"
    using in_stepD(2) [OF inv i] pi by (rule trans)
  note eq = in_stepD(3) [OF inv i j]
  from prefix_by_event [OF ci e] obtain us where us: "fst (sys ! i) = p @ us" by blast
  have "count_list p BarrierWait \<le> count_list (fst (sys ! i)) BarrierWait"
    unfolding us by simp
  then show ?thesis using eq by linarith
qed

lemma performed_count_le:
  assumes inv: "in_step progs sys" and j: "j < length progs"
  shows "count_list (fst (sys ! j)) BarrierWait \<le> count_list (progs ! j) BarrierWait"
proof -
  have "count_list (progs ! j) BarrierWait =
      count_list (fst (sys ! j)) BarrierWait + count_list (snd (sys ! j)) BarrierWait"
    unfolding in_stepD(2) [OF inv j, symmetric] by simp
  then show ?thesis by linarith
qed

lemma sample_loop_complete:
  "\<not> snd (sample_loop cfg iter sl docs ids) \<Longrightarrow>
     fst (sample_loop cfg iter sl docs ids) = map SampleOneDoc ids"
proof (induction ids)
  case Nil
  show ?case by simp
next
  case (Cons d ids)
  show ?case
  proof (cases "diagnostic_check cfg iter sl (docs ! d)")
    case None
    then show ?thesis using Cons by (simp add: case_prod_beta)
  next
    case (Some f)
    then show ?thesis using Cons.prems by simp
  qed
qed

lemma Evaluate_waits: "1 \<le> count_list (Evaluate ev blk tid T wd ww) BarrierWait"
  by (simp add: Evaluate_def evaluate_doc_def evaluate_word_def evaluate_normalize_def)

lemma AliasClear_iff:
  "AliasClear \<in> set (TrainIteration cfg ev blk tid T wd ww) \<longleftrightarrow>
     iteration blk = num_iterations cfg - 1
     \<and> \<not> list_ex is_fatal (TrainIteration cfg ev blk tid T wd ww)"
proof -
  have b: "AliasClear \<notin> set (build_phase cfg blk tid T)"
    using build_phase_events [of AliasClear cfg blk tid T] by auto
  have s: "AliasClear \<notin> set (fst (sample_loop cfg i sl docs ids))" for i sl docs ids
    using sample_loop_events [of AliasClear cfg i sl docs ids] by auto
  have e: "AliasClear \<notin> set (Evaluate ev blk tid T wd ww)"
    using Evaluate_events [of AliasClear ev blk tid T wd ww] by auto
  show ?thesis
    unfolding TrainIteration_fatal_iff
    using b s e by (auto simp: TrainIteration_def Let_def evaluate_and_clear_def)
qed


lemma samples_no_wait: "count_list (map SampleOneDoc ids) BarrierWait = 0"
  by (rule count_notin) auto

lemma TrainIteration_not_halted:
  assumes "\<not> snd (sample_loop cfg (iteration blk) (slice blk) (data blk)
                   (doc_partition (length (data blk)) T tid))"
  shows "TrainIteration cfg ev blk tid T wd ww =
           (build_phase cfg blk tid T
            @ map SampleOneDoc (doc_partition (length (data blk)) T tid))
           @ evaluate_and_clear cfg ev blk tid T wd ww"
  using assms sample_loop_complete [OF assms] by (simp add: TrainIteration_def Let_def)

lemma TrainIteration_halted:
  assumes "snd (sample_loop cfg (iteration blk) (slice blk) (data blk)
                 (doc_partition (length (data blk)) T tid))"
  shows "count_list (TrainIteration cfg ev blk tid T wd ww) BarrierWait = 2"
  using assms by (simp add: TrainIteration_def Let_def build_phase_waits sample_loop_no_wait)

lemma cleared_implies_sampled:
  assumes run: "run_schedule sched (train_threads cfg ev blk T wd ww) = Some sys"
    and tid: "tid < T" and clr: "AliasClear \<in> set (fst (sys ! tid))"
    and even: "iteration blk smod 2 = 0" and jT: "j < T"
  shows "\<exists>us. fst (sys ! j) =
           (build_phase cfg blk j T @ map SampleOneDoc (doc_partition (length (data blk)) T j))
           @ us"
proof -
  let ?progs = "map (\<lambda>tid. TrainIteration cfg ev blk tid T (wd tid) (ww tid)) [0..<T]"
  let ?halted = "\<lambda>t. snd (sample_loop cfg (iteration blk) (slice blk) (data blk)
                   (doc_partition (length (data blk)) T t))"
  let ?p = "build_phase cfg blk tid T
            @ map SampleOneDoc (doc_partition (length (data blk)) T tid)
            @ CallEvaluate # Evaluate ev blk tid T (wd tid) (ww tid)"
  have inv: "in_step ?progs sys" by (rule train_threads_in_step [OF run])
  have i: "tid < length ?progs" and j: "j < length ?progs" using tid jT by simp_all
  have "set (fst (sys ! tid)) \<subseteq> set (fst (sys ! tid) @ snd (sys ! tid))" by simp
  then have "AliasClear \<in> set (?progs ! tid)"
    using clr unfolding in_stepD(2) [OF inv i] by blast
  then have in_trace: "AliasClear \<in> set (TrainIteration cfg ev blk tid T (wd tid) (ww tid))"
    unfolding train_progs_nth [OF tid] .
  then have last: "iteration blk = num_iterations cfg - 1" and nh: "\<not> ?halted tid"
    unfolding AliasClear_iff TrainIteration_fatal_iff by blast+
  have pi: "?progs ! tid = ?p @ [AliasClear]"
    unfolding train_progs_nth [OF tid] TrainIteration_not_halted [OF nh]
    using last even by (simp add: evaluate_and_clear_def)
  have notin: "AliasClear \<notin> set ?p"
    using build_phase_events [of AliasClear cfg blk tid T]
      Evaluate_events [of AliasClear ev blk tid T "wd tid" "ww tid"]
    by auto
  have "3 \<le> count_list ?p BarrierWait"
    using Evaluate_waits [of ev blk tid T "wd tid" "ww tid"]
    by (simp add: build_phase_waits samples_no_wait)
  then have three: "3 \<le> count_list (fst (sys ! j)) BarrierWait"
    using barrier_count [OF inv i j pi clr notin] by linarith
  have nhj: "\<not> ?halted j"
  proof
    assume "?halted j"
    from TrainIteration_halted [OF this, of ev "wd j" "ww j"]
    have "count_list (?progs ! j) BarrierWait = 2" unfolding train_progs_nth [OF jT] .
    then show False using performed_count_le [OF inv j] three by linarith
  qed
  have cj: "fst (sys ! j) @ snd (sys ! j) =
      (build_phase cfg blk j T @ map SampleOneDoc (doc_partition (length (data blk)) T j))
      @ evaluate_and_clear cfg ev blk j T (wd j) (ww j)"
    unfolding in_stepD(2) [OF inv j] train_progs_nth [OF jT]
    by (rule TrainIteration_not_halted [OF nhj])
  have "count_list (build_phase cfg blk j T
        @ map SampleOneDoc (doc_partition (length (data blk)) T j)) BarrierWait = 2"
    by (simp add: build_phase_waits samples_no_wait)
  then have "count_list (build_phase cfg blk j T
        @ map SampleOneDoc (doc_partition (length (data blk)) T j)) BarrierWait
      < count_list (fst (sys ! j)) BarrierWait"
    using three by linarith
  from prefix_by_count [OF cj this] show ?thesis .
qed

text \<open>
  C4, as amended. \<open>AliasTable::Clear\<close> is called in \<open>TrainIteration\<close> only when the
  iteration index is \<open>num_iterations - 1\<close>; then every thread that is not stopped by
  the fatal diagnostic calls it, thread 0 or not, as its last event, after the
  \<open>SampleOneDoc\<close> calls of its own partition; and on an even iteration index, when a
  thread has called \<open>Clear\<close>, every thread has sampled all the documents of its
  partition before (the barriers of \<open>Evaluate\<close> lie in between).
\<close>

theorem Clear_on_final_iteration:
  assumes "run_schedule sched (train_threads cfg ev blk T wait_doc wait_word) = Some sys"
    and "tid < T"
  shows "(AliasClear \<in> set (TrainIteration cfg ev blk tid T (wait_doc tid) (wait_word tid))
            \<longleftrightarrow> iteration blk = num_iterations cfg - 1
                \<and> \<not> list_ex is_fatal
                      (TrainIteration cfg ev blk tid T (wait_doc tid) (wait_word tid)))
       \<and> (AliasClear \<in> set (TrainIteration cfg ev blk tid T (wait_doc tid) (wait_word tid))
            \<longrightarrow> (\<exists>front.
                  TrainIteration cfg ev blk tid T (wait_doc tid) (wait_word tid)
                    = front @ [AliasClear]
                  \<and> AliasClear \<notin> set front
                  \<and> (\<forall>d\<in>set (doc_partition (length (data blk)) T tid).
                        SampleOneDoc d \<in> set front)))
       \<and> (AliasClear \<in> set (fst (sys ! tid)) \<and> even (iteration blk)
            \<longrightarrow> (\<forall>j<T. \<forall>d\<in>set (doc_partition (length (data blk)) T j).
                    SampleOneDoc d \<in> set (fst (sys ! j))))"
proof -
  let ?trace = "TrainIteration cfg ev blk tid T (wait_doc tid) (wait_word tid)"
  let ?ids = "doc_partition (length (data blk)) T tid"
  have a: "AliasClear \<in> set ?trace \<longleftrightarrow>
      iteration blk = num_iterations cfg - 1 \<and> \<not> list_ex is_fatal ?trace"
    by (rule AliasClear_iff)
  have b: "\<exists>front. ?trace = front @ [AliasClear] \<and> AliasClear \<notin> set front
      \<and> (\<forall>d\<in>set ?ids. SampleOneDoc d \<in> set front)"
    if clr: "AliasClear \<in> set ?trace"
  proof -
    from clr have last: "iteration blk = num_iterations cfg - 1"
      and nh: "\<not> snd (sample_loop cfg (iteration blk) (slice blk) (data blk) ?ids)"
      unfolding AliasClear_iff TrainIteration_fatal_iff by blast+
    let ?front = "build_phase cfg blk tid T @ map SampleOneDoc ?ids
        @ (if iteration blk smod 2 = 0
           then CallEvaluate # Evaluate ev blk tid T (wait_doc tid) (wait_word tid) else [])"
    have "?trace = ?front @ [AliasClear]"
      unfolding TrainIteration_not_halted [OF nh]
      using last by (simp add: evaluate_and_clear_def)
    moreover have "AliasClear \<notin> set ?front"
      using build_phase_events [of AliasClear cfg blk tid T]
        Evaluate_events [of AliasClear ev blk tid T "wait_doc tid" "wait_word tid"]
      by auto
    moreover have "\<forall>d\<in>set ?ids. SampleOneDoc d \<in> set ?front" by simp
    ultimately show ?thesis by blast
  qed
  have c: "\<forall>j<T. \<forall>d\<in>set (doc_partition (length (data blk)) T j).
      SampleOneDoc d \<in> set (fst (sys ! j))"
    if clr: "AliasClear \<in> set (fst (sys ! tid))" and ev: "even (iteration blk)"
  proof (intro allI impI ballI)
    fix j d assume j: "j < T" and d: "d \<in> set (doc_partition (length (data blk)) T j)"
    have "iteration blk smod 2 = 0" using ev by (simp add: smod_2_even)
    from cleared_implies_sampled [OF assms clr this j]
    obtain us where "fst (sys ! j) =
        (build_phase cfg blk j T @ map SampleOneDoc (doc_partition (length (data blk)) T j)) @ us"
      by blast
    then show "SampleOneDoc d \<in> set (fst (sys ! j))" using d by simp
  qed
  show ?thesis using a b c by blast
qed

theorem Clear_on_final_iteration_witness:
  "run_schedule [Run 0, Release, Run 0, Run 0, Run 0, Run 1, Release, Run 1, Run 1, Run 1,
       Run 1, Run 1, Run 0, Run 0, Run 0, Run 0, Run 0, Release, Run 1, Run 1, Run 1, Run 1,
       Run 1, Run 0, Run 0, Run 0, Release, Run 0, Run 0, Run 0, Release, Run 1]
     (train_threads example_config example_eval (example_block 2) 2 (\<lambda>t. t = 1) (\<lambda>t. t = 0))
   = Some
      [([AliasInit 0 0, BarrierWait, AliasBuild 1, AliasBuild (- 1),
         AliasInitAsymmetricAlpha, BarrierWait, SampleOneDoc 0, CallEvaluate,
         MutexLock, AddDocLlh (- 1), MutexUnlock, BarrierWait, MutexLock,
         AddWordLlh (- 2), MutexUnlock, BarrierWait, LogWordLlh, ResetWordLlh,
         LogNormalizedLlh, BarrierWait],
        [AliasClear]),
       ([BarrierWait, AliasBuild 2, BarrierWait, SampleOneDoc 1, CallEvaluate,
         MutexLock, AddDocLlh (- 1), MutexUnlock, BarrierWait, LogDocLlh,
         ResetDocLlh, MutexLock, AddWordLlh (- 2), MutexUnlock, BarrierWait,
         BarrierWait, AliasClear],
        [])]
   \<and> AliasClear \<in> set (TrainIteration example_config example_eval (example_block 2) 1 2 True False)"
proof -
  let ?sys = "[([AliasInit 0 0, BarrierWait, AliasBuild 1, AliasBuild (- 1),
         AliasInitAsymmetricAlpha, BarrierWait, SampleOneDoc 0, CallEvaluate,
         MutexLock, AddDocLlh (- 1), MutexUnlock, BarrierWait, MutexLock,
         AddWordLlh (- 2), MutexUnlock, BarrierWait, LogWordLlh, ResetWordLlh,
         LogNormalizedLlh, BarrierWait],
        [AliasClear]),
       ([BarrierWait, AliasBuild 2, BarrierWait, SampleOneDoc 1, CallEvaluate,
         MutexLock, AddDocLlh (- 1), MutexUnlock, BarrierWait, LogDocLlh,
         ResetDocLlh, MutexLock, AddWordLlh (- 2), MutexUnlock, BarrierWait,
         BarrierWait, AliasClear],
        [])]"
  have run: "run_schedule [Run 0, Release, Run 0, Run 0, Run 0, Run 1, Release, Run 1, Run 1, Run 1,
       Run 1, Run 1, Run 0, Run 0, Run 0, Run 0, Run 0, Release, Run 1, Run 1, Run 1, Run 1,
       Run 1, Run 0, Run 0, Run 0, Release, Run 0, Run 0, Run 0, Release, Run 1]
     (train_threads example_config example_eval (example_block 2) 2 (\<lambda>t. t = 1) (\<lambda>t. t = 0))
     = Some ?sys"
    by code_simp
  have tid: "(1::nat) < 2" by simp
  have nofatal: "\<not> list_ex is_fatal
      (TrainIteration example_config example_eval (example_block 2) 1 2 True False)"
    by code_simp
  from Clear_on_final_iteration [OF run tid] nofatal
  have "AliasClear \<in> set (TrainIteration example_config example_eval (example_block 2) 1 2 True False)"
    by (simp add: example_block_def example_config_def)
  then show ?thesis using run by simp
qed

theorem Clear_by_thread_0_only_counterexample:
  "AliasClear \<in> set (TrainIteration example_config example_eval (example_block 2) 1 2 False False)
   \<and> iteration (example_block 2) = num_iterations example_config - 1
   \<and> run_schedule [Run 0, Release, Run 0, Run 0, Run 0, Run 1, Release, Run 1, Run 1]
        (train_threads (example_config\<lparr>num_iterations := 2\<rparr>) example_eval (example_block 1) 2
           (\<lambda>t. False) (\<lambda>t. False))
      = Some
         [([AliasInit 0 0, BarrierWait, AliasBuild 1, AliasBuild (- 1),
            AliasInitAsymmetricAlpha, BarrierWait],
           [SampleOneDoc 0, AliasClear]),
          ([BarrierWait, AliasBuild 2, BarrierWait, SampleOneDoc 1, AliasClear], [])]"
proof -
  have "AliasClear \<in> set (TrainIteration example_config example_eval (example_block 2) 1 2 False False)"
    by code_simp
  moreover have "iteration (example_block 2) = num_iterations example_config - 1"
    by (simp add: example_block_def example_config_def)
  moreover have "run_schedule [Run 0, Release, Run 0, Run 0, Run 0, Run 1, Release, Run 1, Run 1]
        (train_threads (example_config\<lparr>num_iterations := 2\<rparr>) example_eval (example_block 1) 2
           (\<lambda>t. False) (\<lambda>t. False))
      = Some
         [([AliasInit 0 0, BarrierWait, AliasBuild 1, AliasBuild (- 1),
            AliasInitAsymmetricAlpha, BarrierWait],
           [SampleOneDoc 0, AliasClear]),
          ([BarrierWait, AliasBuild 2, BarrierWait, SampleOneDoc 1, AliasClear], [])]"
    by code_simp
  ultimately show ?thesis by simp
qed

section \<open>Properties of Evaluate\<close>

lemma thread_doc_gated: "slice blk \<noteq> 0 \<Longrightarrow> thread_doc ev blk tid T = 0"
  by (simp add: thread_doc_def)

lemma thread_word_gated: "block blk \<noteq> 0 \<Longrightarrow> thread_word ev blk tid T = 0"
  by (simp add: thread_word_def)

lemma Evaluate_under_mutex: "under_mutex False (Evaluate ev blk tid T wd ww)"
  by (simp add: Evaluate_def evaluate_doc_def evaluate_word_def evaluate_normalize_def)

lemma Evaluate_additions:
  "filter is_addition (Evaluate ev blk tid T wd ww)
     = [AddDocLlh (thread_doc ev blk tid T), AddWordLlh (thread_word ev blk tid T)]"
  by (simp add: Evaluate_def evaluate_doc_def evaluate_word_def evaluate_normalize_def)

lemma LogDocLlh_iff:
  "LogDocLlh \<in> set (Evaluate ev blk tid T wd ww) \<longleftrightarrow> slice blk = 0 \<and> wd"
  by (simp add: Evaluate_def evaluate_doc_def evaluate_word_def evaluate_normalize_def)

lemma LogWordLlh_iff:
  "LogWordLlh \<in> set (Evaluate ev blk tid T wd ww) \<longleftrightarrow> block blk = 0 \<and> ww"
  by (simp add: Evaluate_def evaluate_doc_def evaluate_word_def evaluate_normalize_def)

lemma LogDocLlh_after_barrier:
  "slice blk = 0 \<Longrightarrow> wd \<Longrightarrow>
     \<exists>post. Evaluate ev blk tid T wd ww =
       [MutexLock, AddDocLlh (thread_doc ev blk tid T), MutexUnlock,
        BarrierWait, LogDocLlh, ResetDocLlh] @ post"
  by (simp add: Evaluate_def evaluate_doc_def evaluate_word_def evaluate_normalize_def)

lemma LogWordLlh_after_barrier:
  "block blk = 0 \<Longrightarrow> ww \<Longrightarrow>
     \<exists>pre post. Evaluate ev blk tid T wd ww =
       pre @ [MutexLock, AddWordLlh (thread_word ev blk tid T), MutexUnlock,
              BarrierWait, LogWordLlh, ResetWordLlh] @ post"
proof -
  assume b: "block blk = 0" and w: "ww"
  let ?pre = "[MutexLock, AddDocLlh (thread_doc ev blk tid T), MutexUnlock]
     @ (if slice blk = 0
        then BarrierWait # (if wd then [LogDocLlh, ResetDocLlh] else [])
        else [])"
  let ?post = "(if tid = 0 \<and> block blk = 0 then [LogNormalizedLlh] else []) @ [BarrierWait]"
  have "Evaluate ev blk tid T wd ww =
       ?pre @ [MutexLock, AddWordLlh (thread_word ev blk tid T), MutexUnlock,
              BarrierWait, LogWordLlh, ResetWordLlh] @ ?post"
    using b w by (simp add: Evaluate_def evaluate_doc_def evaluate_word_def evaluate_normalize_def)
  then show ?thesis by blast
qed


lemma performed_in_program:
  assumes "in_step progs sys" and "i < length progs" and "e \<in> set (fst (sys ! i))"
  shows "e \<in> set (progs ! i)"
proof -
  have "set (fst (sys ! i)) \<subseteq> set (fst (sys ! i) @ snd (sys ! i))" by simp
  then show ?thesis using assms(3) unfolding in_stepD(2) [OF assms(1,2)] by blast
qed

lemma log_in_TrainIteration:
  assumes "e = LogDocLlh \<or> e = LogWordLlh"
    and "e \<in> set (TrainIteration cfg ev blk tid T wd ww)"
  shows "\<not> snd (sample_loop cfg (iteration blk) (slice blk) (data blk)
                   (doc_partition (length (data blk)) T tid))"
    and "iteration blk smod 2 = 0"
    and "e \<in> set (Evaluate ev blk tid T wd ww)"
proof -
  have b: "e \<notin> set (build_phase cfg blk tid T)"
    using build_phase_events [of e cfg blk tid T] assms(1) by auto
  have s: "e \<notin> set (fst (sample_loop cfg i sl docs ids))" for i sl docs ids
    using sample_loop_events [of e cfg i sl docs ids] assms(1) by auto
  have mem: "e \<in> set (evaluate_and_clear cfg ev blk tid T wd ww)
      \<and> \<not> snd (sample_loop cfg (iteration blk) (slice blk) (data blk)
                   (doc_partition (length (data blk)) T tid))"
    using assms(2) b s unfolding TrainIteration_set by (auto split: if_splits)
  then show "\<not> snd (sample_loop cfg (iteration blk) (slice blk) (data blk)
                   (doc_partition (length (data blk)) T tid))" by blast
  show "iteration blk smod 2 = 0"
    using mem assms(1) by (auto simp: evaluate_and_clear_def split: if_splits)
  show "e \<in> set (Evaluate ev blk tid T wd ww)"
    using mem assms(1) by (auto simp: evaluate_and_clear_def split: if_splits)
qed

lemma evaluate_doc_waits:
  "count_list (evaluate_doc ev blk tid T wd) BarrierWait = (if slice blk = 0 then 1 else 0)"
  by (simp add: evaluate_doc_def)

lemma logged_doc_after_all_added:
  assumes run: "run_schedule sched (train_threads cfg ev blk T wd ww) = Some sys"
    and tid: "tid < T" and lg: "LogDocLlh \<in> set (fst (sys ! tid))" and jT: "j < T"
  shows "AddDocLlh (thread_doc ev blk j T) \<in> set (fst (sys ! j))"
proof -
  let ?progs = "map (\<lambda>tid. TrainIteration cfg ev blk tid T (wd tid) (ww tid)) [0..<T]"
  let ?halted = "\<lambda>t. snd (sample_loop cfg (iteration blk) (slice blk) (data blk)
                   (doc_partition (length (data blk)) T t))"
  let ?sampled = "\<lambda>t. build_phase cfg blk t T
                    @ map SampleOneDoc (doc_partition (length (data blk)) T t)"
  let ?added = "\<lambda>t. ?sampled t
                    @ [CallEvaluate, MutexLock, AddDocLlh (thread_doc ev blk t T), MutexUnlock]"
  have inv: "in_step ?progs sys" by (rule train_threads_in_step [OF run])
  have i: "tid < length ?progs" and j: "j < length ?progs" using tid jT by simp_all
  have in_trace: "LogDocLlh \<in> set (TrainIteration cfg ev blk tid T (wd tid) (ww tid))"
    using performed_in_program [OF inv i lg] unfolding train_progs_nth [OF tid] .
  have kind: "LogDocLlh = LogDocLlh \<or> LogDocLlh = LogWordLlh" by simp
  note facts = log_in_TrainIteration [OF kind in_trace]
  have sl: "slice blk = 0" using facts(3) by (simp add: LogDocLlh_iff)
  have even: "iteration blk smod 2 = 0" by (rule facts(2))
  have split: "TrainIteration cfg ev blk t T (wd t) (ww t) =
      (?added t @ [BarrierWait])
      @ (if wd t then [LogDocLlh, ResetDocLlh] else [])
      @ evaluate_word ev blk t T (ww t) @ evaluate_normalize blk t
      @ (if iteration blk = num_iterations cfg - 1 then [AliasClear] else [])"
    if "\<not> ?halted t" for t
    unfolding TrainIteration_not_halted [OF that]
    using sl even by (simp add: evaluate_and_clear_def Evaluate_def evaluate_doc_def)
  have pi: "?progs ! tid = (?added tid @ [BarrierWait])
      @ (if wd tid then [LogDocLlh, ResetDocLlh] else [])
      @ evaluate_word ev blk tid T (ww tid) @ evaluate_normalize blk tid
      @ (if iteration blk = num_iterations cfg - 1 then [AliasClear] else [])"
    unfolding train_progs_nth [OF tid] by (rule split [OF facts(1)])
  have notin: "LogDocLlh \<notin> set (?added tid @ [BarrierWait])"
    using build_phase_events [of LogDocLlh cfg blk tid T] by auto
  have cnt: "count_list (?added t) BarrierWait = 2" for t
    by (simp add: build_phase_waits samples_no_wait)
  have "count_list (?added tid @ [BarrierWait]) BarrierWait = 3"
    using cnt [of tid] by simp
  then have three: "3 \<le> count_list (fst (sys ! j)) BarrierWait"
    using barrier_count [OF inv i j pi lg notin] by linarith
  have nhj: "\<not> ?halted j"
  proof
    assume "?halted j"
    from TrainIteration_halted [OF this, of ev "wd j" "ww j"]
    have "count_list (?progs ! j) BarrierWait = 2" unfolding train_progs_nth [OF jT] .
    then show False using performed_count_le [OF inv j] three by linarith
  qed
  have cj: "fst (sys ! j) @ snd (sys ! j) = ?added j @ ([BarrierWait]
      @ (if wd j then [LogDocLlh, ResetDocLlh] else [])
      @ evaluate_word ev blk j T (ww j) @ evaluate_normalize blk j
      @ (if iteration blk = num_iterations cfg - 1 then [AliasClear] else []))"
    unfolding in_stepD(2) [OF inv j] train_progs_nth [OF jT] split [OF nhj] by simp
  have "count_list (?added j) BarrierWait < count_list (fst (sys ! j)) BarrierWait"
    using cnt [of j] three by linarith
  from prefix_by_count [OF cj this] obtain us where "fst (sys ! j) = ?added j @ us" by blast
  then show ?thesis by simp
qed


lemma logged_word_after_all_added:
  assumes run: "run_schedule sched (train_threads cfg ev blk T wd ww) = Some sys"
    and tid: "tid < T" and lg: "LogWordLlh \<in> set (fst (sys ! tid))" and jT: "j < T"
  shows "AddWordLlh (thread_word ev blk j T) \<in> set (fst (sys ! j))"
proof -
  let ?progs = "map (\<lambda>tid. TrainIteration cfg ev blk tid T (wd tid) (ww tid)) [0..<T]"
  let ?halted = "\<lambda>t. snd (sample_loop cfg (iteration blk) (slice blk) (data blk)
                   (doc_partition (length (data blk)) T t))"
  let ?sampled = "\<lambda>t. build_phase cfg blk t T
                    @ map SampleOneDoc (doc_partition (length (data blk)) T t)"
  let ?added = "\<lambda>t. ?sampled t @ CallEvaluate # evaluate_doc ev blk t T (wd t)
                    @ [MutexLock, AddWordLlh (thread_word ev blk t T), MutexUnlock]"
  let ?c = "if slice blk = 0 then 3 else (2::nat)"
  have inv: "in_step ?progs sys" by (rule train_threads_in_step [OF run])
  have i: "tid < length ?progs" and j: "j < length ?progs" using tid jT by simp_all
  have in_trace: "LogWordLlh \<in> set (TrainIteration cfg ev blk tid T (wd tid) (ww tid))"
    using performed_in_program [OF inv i lg] unfolding train_progs_nth [OF tid] .
  have kind: "LogWordLlh = LogDocLlh \<or> LogWordLlh = LogWordLlh" by simp
  note facts = log_in_TrainIteration [OF kind in_trace]
  have bl: "block blk = 0" using facts(3) by (simp add: LogWordLlh_iff)
  have even: "iteration blk smod 2 = 0" by (rule facts(2))
  have split: "TrainIteration cfg ev blk t T (wd t) (ww t) =
      (?added t @ [BarrierWait])
      @ (if ww t then [LogWordLlh, ResetWordLlh] else [])
      @ evaluate_normalize blk t
      @ (if iteration blk = num_iterations cfg - 1 then [AliasClear] else [])"
    if "\<not> ?halted t" for t
    unfolding TrainIteration_not_halted [OF that]
    using bl even by (simp add: evaluate_and_clear_def Evaluate_def evaluate_word_def)
  have pi: "?progs ! tid = (?added tid @ [BarrierWait])
      @ (if ww tid then [LogWordLlh, ResetWordLlh] else [])
      @ evaluate_normalize blk tid
      @ (if iteration blk = num_iterations cfg - 1 then [AliasClear] else [])"
    unfolding train_progs_nth [OF tid] by (rule split [OF facts(1)])
  have notin: "LogWordLlh \<notin> set (?added tid @ [BarrierWait])"
    using build_phase_events [of LogWordLlh cfg blk tid T]
    by (auto simp: evaluate_doc_def)
  have cnt: "count_list (?added t) BarrierWait = ?c" for t
    by (simp add: build_phase_waits samples_no_wait evaluate_doc_waits)
  have "count_list (?added tid @ [BarrierWait]) BarrierWait = Suc ?c"
    using cnt [of tid] by simp
  then have more: "Suc ?c \<le> count_list (fst (sys ! j)) BarrierWait"
    using barrier_count [OF inv i j pi lg notin] by linarith
  have nhj: "\<not> ?halted j"
  proof
    assume "?halted j"
    from TrainIteration_halted [OF this, of ev "wd j" "ww j"]
    have "count_list (?progs ! j) BarrierWait = 2" unfolding train_progs_nth [OF jT] .
    then show False using performed_count_le [OF inv j] more by (simp split: if_splits)
  qed
  have cj: "fst (sys ! j) @ snd (sys ! j) = ?added j @ ([BarrierWait]
      @ (if ww j then [LogWordLlh, ResetWordLlh] else [])
      @ evaluate_normalize blk j
      @ (if iteration blk = num_iterations cfg - 1 then [AliasClear] else []))"
    unfolding in_stepD(2) [OF inv j] train_progs_nth [OF jT] split [OF nhj] by simp
  have "count_list (?added j) BarrierWait < count_list (fst (sys ! j)) BarrierWait"
    using cnt [of j] more by linarith
  from prefix_by_count [OF cj this] obtain us where "fst (sys ! j) = ?added j @ us" by blast
  then show ?thesis by simp
qed

text \<open>
  C5. In \<open>Evaluate\<close>, a thread's partial document likelihood is nonzero only when
  \<open>slice == 0\<close> and its partial word likelihood only when \<open>block == 0\<close>; the thread adds
  exactly these two partial sums to the accumulators, each while it holds the mutex;
  the document total is logged exactly by a thread for which \<open>slice == 0\<close> and whose
  \<open>Wait()\<close> returned true, directly after that barrier wait, and is reset directly after
  being logged; the same for the word total with \<open>block == 0\<close>. So when the barrier
  answers true to exactly one of the \<open>T\<close> threads, exactly one thread logs. And under
  any schedule of a call of \<open>TrainIteration\<close>, when a thread has logged a total, every
  thread has added its partial sum to it before.
\<close>

theorem Evaluate_partials_and_logging:
  "(thread_doc ev blk tid T \<noteq> 0 \<longrightarrow> slice blk = 0)
   \<and> (thread_word ev blk tid T \<noteq> 0 \<longrightarrow> block blk = 0)
   \<and> under_mutex False (Evaluate ev blk tid T wd ww)
   \<and> filter is_addition (Evaluate ev blk tid T wd ww)
       = [AddDocLlh (thread_doc ev blk tid T), AddWordLlh (thread_word ev blk tid T)]
   \<and> (LogDocLlh \<in> set (Evaluate ev blk tid T wd ww) \<longleftrightarrow> slice blk = 0 \<and> wd)
   \<and> (LogWordLlh \<in> set (Evaluate ev blk tid T wd ww) \<longleftrightarrow> block blk = 0 \<and> ww)
   \<and> (slice blk = 0 \<and> wd \<longrightarrow>
        (\<exists>post. Evaluate ev blk tid T wd ww =
           [MutexLock, AddDocLlh (thread_doc ev blk tid T), MutexUnlock,
            BarrierWait, LogDocLlh, ResetDocLlh] @ post))
   \<and> (block blk = 0 \<and> ww \<longrightarrow>
        (\<exists>pre post. Evaluate ev blk tid T wd ww =
           pre @ [MutexLock, AddWordLlh (thread_word ev blk tid T), MutexUnlock,
                  BarrierWait, LogWordLlh, ResetWordLlh] @ post))
   \<and> (slice blk = 0 \<and> (\<exists>!t. t < T \<and> wait_doc t) \<longrightarrow>
        (\<exists>!t. t < T \<and> LogDocLlh \<in> set (Evaluate ev blk t T (wait_doc t) (wait_word t))))
   \<and> (block blk = 0 \<and> (\<exists>!t. t < T \<and> wait_word t) \<longrightarrow>
        (\<exists>!t. t < T \<and> LogWordLlh \<in> set (Evaluate ev blk t T (wait_doc t) (wait_word t))))
   \<and> (run_schedule sched (train_threads cfg ev blk T wait_doc wait_word) = Some sys
        \<and> tid < T \<and> LogDocLlh \<in> set (fst (sys ! tid)) \<longrightarrow>
        (\<forall>j<T. AddDocLlh (thread_doc ev blk j T) \<in> set (fst (sys ! j))))
   \<and> (run_schedule sched (train_threads cfg ev blk T wait_doc wait_word) = Some sys
        \<and> tid < T \<and> LogWordLlh \<in> set (fst (sys ! tid)) \<longrightarrow>
        (\<forall>j<T. AddWordLlh (thread_word ev blk j T) \<in> set (fst (sys ! j))))"
proof -
  have one_doc: "\<exists>!t. t < T \<and> LogDocLlh \<in> set (Evaluate ev blk t T (wait_doc t) (wait_word t))"
    if "slice blk = 0" "\<exists>!t. t < T \<and> wait_doc t"
    using that unfolding LogDocLlh_iff by simp
  have one_word: "\<exists>!t. t < T \<and> LogWordLlh \<in> set (Evaluate ev blk t T (wait_doc t) (wait_word t))"
    if "block blk = 0" "\<exists>!t. t < T \<and> wait_word t"
    using that unfolding LogWordLlh_iff by simp
  have gate_doc: "thread_doc ev blk tid T \<noteq> 0 \<longrightarrow> slice blk = 0"
    using thread_doc_gated [of blk ev tid T] by blast
  have gate_word: "thread_word ev blk tid T \<noteq> 0 \<longrightarrow> block blk = 0"
    using thread_word_gated [of blk ev tid T] by blast
  have log_doc: "slice blk = 0 \<and> wd \<longrightarrow>
        (\<exists>post. Evaluate ev blk tid T wd ww =
           [MutexLock, AddDocLlh (thread_doc ev blk tid T), MutexUnlock,
            BarrierWait, LogDocLlh, ResetDocLlh] @ post)"
    using LogDocLlh_after_barrier [of blk wd ev tid T ww] by blast
  have log_word: "block blk = 0 \<and> ww \<longrightarrow>
        (\<exists>pre post. Evaluate ev blk tid T wd ww =
           pre @ [MutexLock, AddWordLlh (thread_word ev blk tid T), MutexUnlock,
                  BarrierWait, LogWordLlh, ResetWordLlh] @ post)"
    using LogWordLlh_after_barrier [of blk ww ev tid T wd] by blast
  have one_doc': "slice blk = 0 \<and> (\<exists>!t. t < T \<and> wait_doc t) \<longrightarrow>
        (\<exists>!t. t < T \<and> LogDocLlh \<in> set (Evaluate ev blk t T (wait_doc t) (wait_word t)))"
    using one_doc by blast
  have one_word': "block blk = 0 \<and> (\<exists>!t. t < T \<and> wait_word t) \<longrightarrow>
        (\<exists>!t. t < T \<and> LogWordLlh \<in> set (Evaluate ev blk t T (wait_doc t) (wait_word t)))"
    using one_word by blast
  have all_doc: "run_schedule sched (train_threads cfg ev blk T wait_doc wait_word) = Some sys
        \<and> tid < T \<and> LogDocLlh \<in> set (fst (sys ! tid)) \<longrightarrow>
        (\<forall>j<T. AddDocLlh (thread_doc ev blk j T) \<in> set (fst (sys ! j)))"
    using logged_doc_after_all_added [of sched cfg ev blk T wait_doc wait_word sys tid]
    by blast
  have all_word: "run_schedule sched (train_threads cfg ev blk T wait_doc wait_word) = Some sys
        \<and> tid < T \<and> LogWordLlh \<in> set (fst (sys ! tid)) \<longrightarrow>
        (\<forall>j<T. AddWordLlh (thread_word ev blk j T) \<in> set (fst (sys ! j)))"
    using logged_word_after_all_added [of sched cfg ev blk T wait_doc wait_word sys tid]
    by blast
  show ?thesis
    by (intro conjI gate_doc gate_word Evaluate_under_mutex Evaluate_additions
        LogDocLlh_iff LogWordLlh_iff log_doc log_word one_doc' one_word' all_doc all_word)
qed

theorem Evaluate_partials_and_logging_witness:
  "Evaluate example_eval (example_block 2) 1 2 True False
     = [MutexLock, AddDocLlh (- 1), MutexUnlock, BarrierWait, LogDocLlh, ResetDocLlh,
        MutexLock, AddWordLlh (- 2), MutexUnlock, BarrierWait, BarrierWait]
   \<and> LogDocLlh \<notin> set (Evaluate example_eval (example_block 2) 0 2 False True)
   \<and> (\<exists>!t. t < 2 \<and> LogDocLlh \<in> set (Evaluate example_eval (example_block 2) t 2 (t = 1) (t = 0)))"
proof -
  have ev: "Evaluate example_eval (example_block 2) 1 2 True False
     = [MutexLock, AddDocLlh (- 1), MutexUnlock, BarrierWait, LogDocLlh, ResetDocLlh,
        MutexLock, AddWordLlh (- 2), MutexUnlock, BarrierWait, BarrierWait]"
    by code_simp
  have sl: "slice (example_block 2) = 0" by (simp add: example_block_def)
  have one: "\<exists>!t::nat. t < 2 \<and> t = 1" by auto
  note inst = Evaluate_partials_and_logging
      [of example_eval "example_block 2" 0 2 False True "\<lambda>t. t = 1" "\<lambda>t. t = 0"]
  note log_iff = inst [THEN conjunct2, THEN conjunct2, THEN conjunct2, THEN conjunct2,
      THEN conjunct1]
  note one_logs = inst [THEN conjunct2, THEN conjunct2, THEN conjunct2, THEN conjunct2,
      THEN conjunct2, THEN conjunct2, THEN conjunct2, THEN conjunct2, THEN conjunct1]
  have "LogDocLlh \<notin> set (Evaluate example_eval (example_block 2) 0 2 False True)"
    using log_iff by simp
  moreover
  have "\<exists>!t. t < 2 \<and> LogDocLlh \<in> set (Evaluate example_eval (example_block 2) t 2 (t = 1) (t = 0))"
    using one_logs sl one by blast
  ultimately show ?thesis using ev by simp
qed

section \<open>Every slot is built once, every document sampled once\<close>

lemma count_no_AliasBuild:
  "count_list (install_index blk tid) (AliasBuild w) = 0"
  "count_list (fst (sample_loop cfg iter sl docs ids)) (AliasBuild w) = 0"
  "count_list (evaluate_and_clear cfg ev blk tid T wd ww) (AliasBuild w) = 0"
proof -
  show "count_list (install_index blk tid) (AliasBuild w) = 0"
    by (simp add: install_index_def)
  show "count_list (fst (sample_loop cfg iter sl docs ids)) (AliasBuild w) = 0"
    using sample_loop_events [of "AliasBuild w" cfg iter sl docs ids]
    by (intro count_notin) auto
  show "count_list (evaluate_and_clear cfg ev blk tid T wd ww) (AliasBuild w) = 0"
    using evaluate_and_clear_events [of "AliasBuild w" cfg ev blk tid T wd ww]
      Evaluate_events [of "AliasBuild w" ev blk tid T wd ww]
    by (intro count_notin) auto
qed

lemma count_AliasBuild_TrainIteration:
  "count_list (TrainIteration cfg ev blk tid T wd ww) (AliasBuild w)
     = count_list (build_slots cfg blk tid T) (AliasBuild w)"
  by (simp add: TrainIteration_def Let_def build_phase_def count_no_AliasBuild)

lemma count_AliasBuild_build_slots:
  assumes "0 \<le> w"
  shows "count_list (build_slots cfg blk tid T) (AliasBuild w)
     = count_list (map (\<lambda>p. vocab_words (meta blk) ! p)
         (word_partition (vocab_begin (meta blk) (slice blk))
            (vocab_end (meta blk) (slice blk)) T tid)) w"
proof -
  have "count_list (map AliasBuild xs) (AliasBuild w) = count_list xs w" for xs
    by (rule count_list_map_inj) (simp add: inj_on_def)
  from this [of "map (\<lambda>p. vocab_words (meta blk) ! p)
         (word_partition (vocab_begin (meta blk) (slice blk))
            (vocab_end (meta blk) (slice blk)) T tid)"]
  show ?thesis using assms by (simp add: build_slots_def comp_def)
qed

lemma count_SampleOneDoc_sample_loop:
  "count_list (fst (sample_loop cfg iter sl docs ids)) (SampleOneDoc d) \<le> count_list ids d"
proof (induction ids)
  case Nil
  show ?case by simp
next
  case (Cons i ids)
  show ?case
  proof (cases "diagnostic_check cfg iter sl (docs ! i)")
    case None
    then show ?thesis using Cons.IH by (simp add: case_prod_beta)
  next
    case (Some f)
    have "is_fatal f" by (rule diagnostic_check_fatal [OF Some])
    then have "f \<noteq> SampleOneDoc d" by auto
    then show ?thesis using Some by simp
  qed
qed

lemma count_SampleOneDoc_TrainIteration:
  "count_list (TrainIteration cfg ev blk tid T wd ww) (SampleOneDoc d)
     = count_list (fst (sample_loop cfg (iteration blk) (slice blk) (data blk)
                          (doc_partition (length (data blk)) T tid))) (SampleOneDoc d)"
proof -
  have b: "count_list (build_phase cfg blk tid T) (SampleOneDoc d) = 0"
    using build_phase_events [of "SampleOneDoc d" cfg blk tid T] by (intro count_notin) auto
  have e: "count_list (evaluate_and_clear cfg ev blk tid T wd ww) (SampleOneDoc d) = 0"
    using evaluate_and_clear_events [of "SampleOneDoc d" cfg ev blk tid T wd ww]
      Evaluate_events [of "SampleOneDoc d" ev blk tid T wd ww]
    by (intro count_notin) auto
  show ?thesis by (simp add: TrainIteration_def Let_def b e)
qed


lemma slice_word_built_once:
  assumes T: "0 < T"
    and dist: "distinct (map (\<lambda>p. vocab_words (meta blk) ! p)
                 [vocab_begin (meta blk) (slice blk)..<vocab_end (meta blk) (slice blk)])"
    and p: "p \<in> {vocab_begin (meta blk) (slice blk)..<vocab_end (meta blk) (slice blk)}"
    and nonneg: "0 \<le> vocab_words (meta blk) ! p"
  shows "(\<Sum>tid<T. count_list (TrainIteration cfg ev blk tid T (wd tid) (ww tid))
                     (AliasBuild (vocab_words (meta blk) ! p))) = 1"
proof -
  define f where "f = (\<lambda>p. vocab_words (meta blk) ! p)"
  define vb where "vb = vocab_begin (meta blk) (slice blk)"
  define ve where "ve = vocab_end (meta blk) (slice blk)"
  have inj: "inj_on f {vb..<ve}"
    using dist unfolding f_def vb_def ve_def by (simp add: distinct_map)
  have pr: "p \<in> {vb..<ve}" using p unfolding vb_def ve_def .
  have one: "count_list (TrainIteration cfg ev blk tid T (wd tid) (ww tid)) (AliasBuild (f p))
      = (if p \<in> set (round_robin (vb + tid) ve T) then 1 else 0)" for tid
  proof -
    let ?wp = "round_robin (vb + tid) ve T"
    have sub: "set ?wp \<subseteq> {vb..<ve}" using round_robin_range [OF T] by blast
    have inj': "inj_on f (set ?wp)" by (rule inj_on_subset [OF inj sub])
    have "distinct (map f ?wp)"
      using distinct_round_robin [of "vb + tid" ve T] inj' by (simp add: distinct_map)
    then have "count_list (map f ?wp) (f p) = (if f p \<in> set (map f ?wp) then 1 else 0)"
      by (rule count_list_distinct)
    moreover have "f p \<in> set (map f ?wp) \<longleftrightarrow> p \<in> set ?wp"
      using inj_on_image_mem_iff [OF inj pr sub] by simp
    moreover have "count_list (TrainIteration cfg ev blk tid T (wd tid) (ww tid)) (AliasBuild (f p))
        = count_list (map f ?wp) (f p)"
      unfolding count_AliasBuild_TrainIteration
      using count_AliasBuild_build_slots [of "f p" cfg blk tid T] nonneg
      unfolding f_def vb_def ve_def word_partition_def by simp
    ultimately show ?thesis by simp
  qed
  have "(\<Sum>tid<T. count_list (TrainIteration cfg ev blk tid T (wd tid) (ww tid)) (AliasBuild (f p)))
      = (\<Sum>tid<T. if p \<in> set (round_robin (vb + tid) ve T) then 1 else 0)"
    by (rule sum.cong [OF refl]) (rule one)
  also have "\<dots> = 1" by (rule one_owner_sum [OF T pr])
  finally show ?thesis unfolding f_def .
qed

lemma built_word_in_slice:
  assumes "0 < T" and "0 \<le> w"
    and "AliasBuild w \<in> set (TrainIteration cfg ev blk tid T wd ww)"
  shows "w \<in> (\<lambda>p. vocab_words (meta blk) ! p) `
           {vocab_begin (meta blk) (slice blk)..<vocab_end (meta blk) (slice blk)}"
proof -
  have "count_list (TrainIteration cfg ev blk tid T wd ww) (AliasBuild w) \<noteq> 0"
    using assms(3) count_list_0_iff [of "TrainIteration cfg ev blk tid T wd ww" "AliasBuild w"]
    by blast
  then have "0 < count_list (TrainIteration cfg ev blk tid T wd ww) (AliasBuild w)"
    by simp
  then have "0 < count_list (map (\<lambda>p. vocab_words (meta blk) ! p)
         (word_partition (vocab_begin (meta blk) (slice blk))
            (vocab_end (meta blk) (slice blk)) T tid)) w"
    unfolding count_AliasBuild_TrainIteration count_AliasBuild_build_slots [OF assms(2)] .
  then have "w \<in> set (map (\<lambda>p. vocab_words (meta blk) ! p)
         (word_partition (vocab_begin (meta blk) (slice blk))
            (vocab_end (meta blk) (slice blk)) T tid))"
    using count_list_0_iff [of "map (\<lambda>p. vocab_words (meta blk) ! p)
         (word_partition (vocab_begin (meta blk) (slice blk))
            (vocab_end (meta blk) (slice blk)) T tid)" w]
    by linarith
  then obtain p where "p \<in> set (word_partition (vocab_begin (meta blk) (slice blk))
            (vocab_end (meta blk) (slice blk)) T tid)" "w = vocab_words (meta blk) ! p"
    by auto
  then show ?thesis
    using round_robin_range [OF assms(1)] unfolding word_partition_def by blast
qed

lemma doc_sampled_at_most_once:
  assumes T: "0 < T"
  shows "(\<Sum>tid<T. count_list (TrainIteration cfg ev blk tid T (wd tid) (ww tid)) (SampleOneDoc d))
           \<le> 1"
    and "(\<forall>tid<T. \<not> list_ex is_fatal (TrainIteration cfg ev blk tid T (wd tid) (ww tid)))
          \<Longrightarrow> d < length (data blk) \<Longrightarrow>
         (\<Sum>tid<T. count_list (TrainIteration cfg ev blk tid T (wd tid) (ww tid)) (SampleOneDoc d))
           = 1"
    and "tid < T \<Longrightarrow> SampleOneDoc d \<in> set (TrainIteration cfg ev blk tid T wd' ww')
          \<Longrightarrow> d < length (data blk)"
proof -
  define n where "n = length (data blk)"
  let ?ind = "\<lambda>tid. if d \<in> set (round_robin (0 + tid) n T) then 1 else (0::nat)"
  have ids: "count_list (doc_partition n T tid) d = ?ind tid" for tid
    unfolding doc_partition_def using count_list_distinct [OF distinct_round_robin] by simp
  have le: "count_list (TrainIteration cfg ev blk tid T wd' ww') (SampleOneDoc d) \<le> ?ind tid"
    for tid wd' ww'
  proof -
    have "count_list (TrainIteration cfg ev blk tid T wd' ww') (SampleOneDoc d)
        \<le> count_list (doc_partition n T tid) d"
      unfolding count_SampleOneDoc_TrainIteration n_def
      by (rule count_SampleOneDoc_sample_loop)
    then show ?thesis unfolding ids .
  qed
  have ind_sum: "(\<Sum>tid<T. ?ind tid) \<le> 1"
  proof (cases "d < n")
    case True
    then have "d \<in> {0..<n}" by simp
    from one_owner_sum [OF T this] show ?thesis by simp
  next
    case False
    have "?ind tid = 0" for tid
      using round_robin_range [OF T, of d 0 tid n] False by auto
    then show ?thesis by simp
  qed
  have "(\<Sum>tid<T. count_list (TrainIteration cfg ev blk tid T (wd tid) (ww tid)) (SampleOneDoc d))
      \<le> (\<Sum>tid<T. ?ind tid)"
    by (rule sum_mono) (rule le)
  then show "(\<Sum>tid<T. count_list (TrainIteration cfg ev blk tid T (wd tid) (ww tid))
      (SampleOneDoc d)) \<le> 1"
    using ind_sum by linarith
  show "(\<Sum>tid<T. count_list (TrainIteration cfg ev blk tid T (wd tid) (ww tid)) (SampleOneDoc d))
           = 1"
    if nf: "\<forall>tid<T. \<not> list_ex is_fatal (TrainIteration cfg ev blk tid T (wd tid) (ww tid))"
      and d: "d < length (data blk)"
  proof -
    have eq: "count_list (TrainIteration cfg ev blk tid T (wd tid) (ww tid)) (SampleOneDoc d)
        = ?ind tid" if "tid \<in> {..<T}" for tid
    proof -
      have "\<not> snd (sample_loop cfg (iteration blk) (slice blk) (data blk)
                   (doc_partition (length (data blk)) T tid))"
        using nf that unfolding TrainIteration_fatal_iff by simp
      from sample_loop_complete [OF this]
      have "count_list (TrainIteration cfg ev blk tid T (wd tid) (ww tid)) (SampleOneDoc d)
          = count_list (map SampleOneDoc (doc_partition n T tid)) (SampleOneDoc d)"
        unfolding count_SampleOneDoc_TrainIteration n_def by simp
      also have "\<dots> = count_list (doc_partition n T tid) d"
        by (rule count_list_map_inj) (simp add: inj_on_def)
      finally show ?thesis unfolding ids .
    qed
    have "d \<in> {0..<n}" using d unfolding n_def by simp
    from one_owner_sum [OF T this] have one: "(\<Sum>tid<T. ?ind tid) = 1" .
    have "(\<Sum>tid<T. count_list (TrainIteration cfg ev blk tid T (wd tid) (ww tid))
        (SampleOneDoc d)) = (\<Sum>tid<T. ?ind tid)"
      by (rule sum.cong [OF refl]) (rule eq)
    then show ?thesis using one by simp
  qed
  show "d < length (data blk)"
    if "tid < T" "SampleOneDoc d \<in> set (TrainIteration cfg ev blk tid T wd' ww')"
  proof -
    have "count_list (TrainIteration cfg ev blk tid T wd' ww') (SampleOneDoc d) \<noteq> 0"
      using that(2)
        count_list_0_iff [of "TrainIteration cfg ev blk tid T wd' ww'" "SampleOneDoc d"]
      by blast
    then have "0 < count_list (TrainIteration cfg ev blk tid T wd' ww') (SampleOneDoc d)"
      by simp
    then have "?ind tid \<noteq> 0" using le [of tid wd' ww'] by linarith
    then have "d \<in> set (round_robin (0 + tid) n T)" by (simp split: if_splits)
    from round_robin_range [OF T this] show ?thesis unfolding n_def by simp
  qed
qed

text \<open>
  C2. For every thread count \<open>T \<ge> 1\<close> and every slice word range \<open>[vbegin, vend)\<close>, the
  positions that the threads \<open>id < T\<close> take in the word loop of \<open>TrainIteration\<close> are
  taken once each, the position sets of two different threads are disjoint, and their
  union is the whole range; the same holds for the document ids over
  \<open>[0, data.Size())\<close>, and where the 32-bit counter of the document loop stays in its
  range that loop visits exactly these ids. On the calls themselves: when the words
  of the slice are pairwise distinct valid ids, all threads together build the slot of
  every word of the slice exactly once (one thread does, once); a thread builds no
  slot of a word outside the slice; and where the 32-bit document counter stays in
  its range (\<open>data.Size() + T \<le> 2^31\<close>), all threads together sample a document at most
  once, and only documents of the block, and unless the fatal diagnostic stops a
  thread, they sample every document of the block exactly once.
\<close>

theorem round_robin_partitions_exact:
  assumes "1 \<le> T"
  shows "(\<forall>tid<T. distinct (word_partition vbegin vend T tid))
       \<and> (\<forall>i<T. \<forall>j<T. i \<noteq> j \<longrightarrow>
             set (word_partition vbegin vend T i) \<inter> set (word_partition vbegin vend T j) = {})
       \<and> (\<Union>tid<T. set (word_partition vbegin vend T tid)) = {vbegin..<vend}
       \<and> (\<forall>tid<T. distinct (doc_partition dsize T tid))
       \<and> (\<forall>i<T. \<forall>j<T. i \<noteq> j \<longrightarrow>
             set (doc_partition dsize T i) \<inter> set (doc_partition dsize T j) = {})
       \<and> (\<Union>tid<T. set (doc_partition dsize T tid)) = {0..<dsize}
       \<and> (int dsize + int T \<le> 2147483648 \<longrightarrow>
            (\<forall>tid. doc_loop32 (int tid) (int dsize) (int T)
                     = Inr (map int (doc_partition dsize T tid))))
       \<and> (distinct (map (\<lambda>p. vocab_words (meta blk) ! p)
                      [vocab_begin (meta blk) (slice blk)..<vocab_end (meta blk) (slice blk)])
            \<longrightarrow>
            (\<forall>p\<in>{vocab_begin (meta blk) (slice blk)..<vocab_end (meta blk) (slice blk)}.
               0 \<le> vocab_words (meta blk) ! p \<longrightarrow>
               (\<Sum>tid<T. count_list (TrainIteration cfg ev blk tid T (wd tid) (ww tid))
                              (AliasBuild (vocab_words (meta blk) ! p))) = 1))
       \<and> (\<forall>tid<T. \<forall>w. 0 \<le> w
              \<and> AliasBuild w \<in> set (TrainIteration cfg ev blk tid T (wd tid) (ww tid)) \<longrightarrow>
              w \<in> (\<lambda>p. vocab_words (meta blk) ! p) `
                    {vocab_begin (meta blk) (slice blk)..<vocab_end (meta blk) (slice blk)})
       \<and> (int (length (data blk)) + int T \<le> 2147483648 \<longrightarrow>
            (\<forall>tid. doc_loop32 (int tid) (int (length (data blk))) (int T)
                     = Inr (map int (doc_partition (length (data blk)) T tid)))
            \<and> (\<forall>d. (\<Sum>tid<T. count_list (TrainIteration cfg ev blk tid T (wd tid) (ww tid))
                                   (SampleOneDoc d)) \<le> 1)
            \<and> (\<forall>tid<T. \<forall>d.
                   SampleOneDoc d \<in> set (TrainIteration cfg ev blk tid T (wd tid) (ww tid)) \<longrightarrow>
                   d < length (data blk))
            \<and> ((\<forall>tid<T. \<not> list_ex is_fatal
                              (TrainIteration cfg ev blk tid T (wd tid) (ww tid)))
                 \<longrightarrow>
                 (\<forall>d<length (data blk).
                    (\<Sum>tid<T. count_list (TrainIteration cfg ev blk tid T (wd tid) (ww tid))
                                   (SampleOneDoc d)) = 1)))"
proof -
  have T: "0 < T" using assms by simp
  note idx = round_robin_index_partitions [OF assms, of vbegin vend dsize]
  have loop32: "int dsize + int T \<le> 2147483648 \<longrightarrow>
      (\<forall>tid. doc_loop32 (int tid) (int dsize) (int T) = Inr (map int (doc_partition dsize T tid)))"
    by (simp add: doc_partition_def doc_loop32_round_robin)
  have built: "distinct (map (\<lambda>p. vocab_words (meta blk) ! p)
                      [vocab_begin (meta blk) (slice blk)..<vocab_end (meta blk) (slice blk)])
      \<longrightarrow>
      (\<forall>p\<in>{vocab_begin (meta blk) (slice blk)..<vocab_end (meta blk) (slice blk)}.
         0 \<le> vocab_words (meta blk) ! p \<longrightarrow>
         (\<Sum>tid<T. count_list (TrainIteration cfg ev blk tid T (wd tid) (ww tid))
                        (AliasBuild (vocab_words (meta blk) ! p))) = 1)"
    using slice_word_built_once [OF T, of blk _ cfg ev wd ww] by blast
  have only_slice: "\<forall>tid<T. \<forall>w. 0 \<le> w
        \<and> AliasBuild w \<in> set (TrainIteration cfg ev blk tid T (wd tid) (ww tid)) \<longrightarrow>
        w \<in> (\<lambda>p. vocab_words (meta blk) ! p) `
              {vocab_begin (meta blk) (slice blk)..<vocab_end (meta blk) (slice blk)}"
    using built_word_in_slice [OF T, of _ cfg ev blk] by blast
  have at_most: "\<forall>d. (\<Sum>tid<T. count_list (TrainIteration cfg ev blk tid T (wd tid) (ww tid))
                              (SampleOneDoc d)) \<le> 1"
    using doc_sampled_at_most_once(1) [OF T, of cfg ev blk wd ww] by blast
  have in_block: "\<forall>tid<T. \<forall>d.
        SampleOneDoc d \<in> set (TrainIteration cfg ev blk tid T (wd tid) (ww tid)) \<longrightarrow>
        d < length (data blk)"
    using doc_sampled_at_most_once(3) [OF T, of _ _ cfg ev blk] by blast
  have exactly: "(\<forall>tid<T. \<not> list_ex is_fatal (TrainIteration cfg ev blk tid T (wd tid) (ww tid)))
      \<longrightarrow>
      (\<forall>d<length (data blk).
         (\<Sum>tid<T. count_list (TrainIteration cfg ev blk tid T (wd tid) (ww tid))
                        (SampleOneDoc d)) = 1)"
    using doc_sampled_at_most_once(2) [OF T, of cfg ev blk wd ww] by blast
  have loop32_blk: "int (length (data blk)) + int T \<le> 2147483648 \<longrightarrow>
      (\<forall>tid. doc_loop32 (int tid) (int (length (data blk))) (int T)
               = Inr (map int (doc_partition (length (data blk)) T tid)))"
    by (simp add: doc_partition_def doc_loop32_round_robin)
  have docs: "int (length (data blk)) + int T \<le> 2147483648 \<longrightarrow>
            (\<forall>tid. doc_loop32 (int tid) (int (length (data blk))) (int T)
                     = Inr (map int (doc_partition (length (data blk)) T tid)))
            \<and> (\<forall>d. (\<Sum>tid<T. count_list (TrainIteration cfg ev blk tid T (wd tid) (ww tid))
                                   (SampleOneDoc d)) \<le> 1)
            \<and> (\<forall>tid<T. \<forall>d.
                   SampleOneDoc d \<in> set (TrainIteration cfg ev blk tid T (wd tid) (ww tid)) \<longrightarrow>
                   d < length (data blk))
            \<and> ((\<forall>tid<T. \<not> list_ex is_fatal
                              (TrainIteration cfg ev blk tid T (wd tid) (ww tid)))
                 \<longrightarrow>
                 (\<forall>d<length (data blk).
                    (\<Sum>tid<T. count_list (TrainIteration cfg ev blk tid T (wd tid) (ww tid))
                                   (SampleOneDoc d)) = 1))"
    using loop32_blk at_most in_block exactly by (intro impI conjI) blast+
  show ?thesis
    by (intro conjI idx [THEN conjunct1] idx [THEN conjunct2, THEN conjunct1]
        idx [THEN conjunct2, THEN conjunct2, THEN conjunct1]
        idx [THEN conjunct2, THEN conjunct2, THEN conjunct2, THEN conjunct1]
        idx [THEN conjunct2, THEN conjunct2, THEN conjunct2, THEN conjunct2, THEN conjunct1]
        idx [THEN conjunct2, THEN conjunct2, THEN conjunct2, THEN conjunct2, THEN conjunct2]
        loop32 built only_slice docs)
qed

theorem round_robin_partitions_exact_witness:
  "word_partition 3 8 2 0 = [3, 5, 7] \<and> word_partition 3 8 2 1 = [4, 6]
   \<and> (\<Union>tid<2. set (word_partition 3 8 2 tid)) = {3..<8}
   \<and> doc_partition 5 2 0 = [0, 2, 4] \<and> doc_partition 5 2 1 = [1, 3]
   \<and> doc_loop32 0 5 2 = Inr [0, 2, 4]
   \<and> TrainIteration example_config example_eval (example_block 1) 0 2 False False
       = [AliasInit 0 0, BarrierWait, AliasBuild 1, AliasBuild (- 1), AliasInitAsymmetricAlpha,
          BarrierWait, SampleOneDoc 0]
   \<and> TrainIteration example_config example_eval (example_block 1) 1 2 False False
       = [BarrierWait, AliasBuild 2, BarrierWait, SampleOneDoc 1]
   \<and> (\<Sum>tid<2. count_list
          (TrainIteration example_config example_eval (example_block 1) tid 2 False False)
          (AliasBuild 2)) = 1
   \<and> (\<Sum>tid<2. count_list
          (TrainIteration example_config example_eval (example_block 1) tid 2 False False)
          (SampleOneDoc 1)) = 1"
proof -
  have T: "(1::nat) \<le> 2" by simp
  note inst = round_robin_partitions_exact [OF T, where vbegin = 3 and vend = 8 and dsize = 5
      and blk = "example_block 1" and cfg = example_config and ev = example_eval
      and wd = "\<lambda>t. False" and ww = "\<lambda>t. False"]
  note cover = inst [THEN conjunct2, THEN conjunct2, THEN conjunct1]
  note loop32 = inst [THEN conjunct2, THEN conjunct2, THEN conjunct2, THEN conjunct2,
      THEN conjunct2, THEN conjunct2, THEN conjunct1]
  note built = inst [THEN conjunct2, THEN conjunct2, THEN conjunct2, THEN conjunct2,
      THEN conjunct2, THEN conjunct2, THEN conjunct2, THEN conjunct1]
  note docs = inst [THEN conjunct2, THEN conjunct2, THEN conjunct2, THEN conjunct2,
      THEN conjunct2, THEN conjunct2, THEN conjunct2, THEN conjunct2, THEN conjunct2]
  have w0: "word_partition 3 8 2 0 = [3, 5, 7]" by code_simp
  have w1: "word_partition 3 8 2 1 = [4, 6]" by code_simp
  have d0: "doc_partition 5 2 0 = [0, 2, 4]" by code_simp
  have d1: "doc_partition 5 2 1 = [1, 3]" by code_simp
  have t0: "TrainIteration example_config example_eval (example_block 1) 0 2 False False
       = [AliasInit 0 0, BarrierWait, AliasBuild 1, AliasBuild (- 1), AliasInitAsymmetricAlpha,
          BarrierWait, SampleOneDoc 0]"
    by code_simp
  have t1: "TrainIteration example_config example_eval (example_block 1) 1 2 False False
       = [BarrierWait, AliasBuild 2, BarrierWait, SampleOneDoc 1]"
    by code_simp
  have l32: "doc_loop32 0 5 2 = Inr [0, 2, 4]"
    using loop32 [rule_format, of 0] by (simp add: d0)
  have vb: "vocab_begin (meta (example_block 1)) (slice (example_block 1)) = 0"
    and ve: "vocab_end (meta (example_block 1)) (slice (example_block 1)) = 2"
    and ws: "vocab_words (meta (example_block 1)) = [1, 2]"
    and len: "length (data (example_block 1)) = 2"
    by (simp_all add: example_block_def example_vocab_def)
  have upt2: "[0..<2] = [0, Suc 0]" by (simp add: numeral_2_eq_2)
  have dist: "distinct (map (\<lambda>p. vocab_words (meta (example_block 1)) ! p)
      [vocab_begin (meta (example_block 1)) (slice (example_block 1))..<
       vocab_end (meta (example_block 1)) (slice (example_block 1))])"
    unfolding vb ve ws upt2 by simp
  have p1: "(1::nat) \<in> {vocab_begin (meta (example_block 1)) (slice (example_block 1))..<
       vocab_end (meta (example_block 1)) (slice (example_block 1))}"
    unfolding vb ve by simp
  have "(\<Sum>tid<2. count_list
          (TrainIteration example_config example_eval (example_block 1) tid 2 False False)
          (AliasBuild (vocab_words (meta (example_block 1)) ! 1))) = 1"
    using built [rule_format, OF dist p1] unfolding ws by simp
  then have b: "(\<Sum>tid<2. count_list
          (TrainIteration example_config example_eval (example_block 1) tid 2 False False)
          (AliasBuild 2)) = 1"
    unfolding ws by simp
  have nf: "\<forall>tid<2. \<not> list_ex is_fatal
      (TrainIteration example_config example_eval (example_block 1) tid 2 False False)"
    unfolding TrainIteration_fatal_iff
    by (simp add: sample_loop_not_halted example_block_def)
  have d12: "(1::nat) < length (data (example_block 1))" unfolding len by simp
  have bound: "int (length (data (example_block 1))) + int 2 \<le> 2147483648"
    unfolding len by simp
  have s: "(\<Sum>tid<2. count_list
          (TrainIteration example_config example_eval (example_block 1) tid 2 False False)
          (SampleOneDoc 1)) = 1"
    using docs bound nf d12 by blast
  show ?thesis using w0 w1 d0 d1 cover l32 t0 t1 b s by simp
qed

section \<open>Properties of Build\<close>

text \<open>
  C8. \<open>Build(word, model)\<close> with \<open>word \<ge> 0\<close> succeeds, and stores the word's slot, when
  the number of nonzero topics of the word's row is at most the capacity reserved for
  the word, equality included; when the number exceeds the capacity it returns the
  capacity violation as its result (an error value, nothing is thrown) and stores
  nothing.
\<close>

theorem Build_capacity_boundary:
  assumes "0 \<le> word"
  shows "(length (nonzero_entries (word_topic_row m word)) \<le> capacity table word \<longrightarrow>
            Build make_slot word m table =
              Inr (table\<lparr>word_slot := (word_slot table)
                     (word \<mapsto> make_slot (nonzero_entries (word_topic_row m word)))\<rparr>))
       \<and> (capacity table word < length (nonzero_entries (word_topic_row m word)) \<longrightarrow>
            Build make_slot word m table = Inl CapacityViolation)"
  using assms by (simp add: Build_def Let_def)

theorem Build_capacity_boundary_witness:
  "Build (\<lambda>entries. \<lparr>height = length entries, mass = 1, bins = []\<rparr>) 3
     \<lparr>word_topic_row = (\<lambda>w. [0, 2, 0, 5]), summary_row = [4, 4, 4, 4]\<rparr>
     \<lparr>capacity = (\<lambda>w. 2), word_slot = Map.empty, dense_slot = None\<rparr>
   = Inr \<lparr>capacity = (\<lambda>w. 2),
          word_slot = [3 \<mapsto> \<lparr>height = 2, mass = 1, bins = []\<rparr>], dense_slot = None\<rparr>
   \<and> Build (\<lambda>entries. \<lparr>height = length entries, mass = 1, bins = []\<rparr>) 3
     \<lparr>word_topic_row = (\<lambda>w. [1, 2, 0, 5]), summary_row = [4, 4, 4, 4]\<rparr>
     \<lparr>capacity = (\<lambda>w. 2), word_slot = Map.empty, dense_slot = None\<rparr>
   = Inl CapacityViolation"
proof -
  have n2: "nonzero_entries [0, 2, 0, 5] = [(1, 2), (3, 5)]" by code_simp
  have n3: "nonzero_entries [1, 2, 0, 5] = [(0, 1), (1, 2), (3, 5)]" by code_simp
  have w: "(0::int) \<le> 3" by simp
  show ?thesis
    using Build_capacity_boundary [OF w,
        of "\<lparr>word_topic_row = (\<lambda>w. [0, 2, 0, 5]), summary_row = [4, 4, 4, 4]\<rparr>"
           "\<lparr>capacity = (\<lambda>w. 2), word_slot = Map.empty, dense_slot = None\<rparr>"
           "\<lambda>entries. \<lparr>height = length entries, mass = 1, bins = []\<rparr>"]
      Build_capacity_boundary [OF w,
        of "\<lparr>word_topic_row = (\<lambda>w. [1, 2, 0, 5]), summary_row = [4, 4, 4, 4]\<rparr>"
           "\<lparr>capacity = (\<lambda>w. 2), word_slot = Map.empty, dense_slot = None\<rparr>"
           "\<lambda>entries. \<lparr>height = length entries, mass = 1, bins = []\<rparr>"]
    by (simp add: n2 n3 numeral_2_eq_2)
qed

section \<open>Properties of Propose\<close>

lemma mixture_value_range:
  assumes "0 \<le> u" "u < 1" "0 < mass sparse + mass dense"
  shows "0 \<le> mixture_value sparse dense u"
    and "mixture_value sparse dense u < mass sparse + mass dense"
proof -
  show "0 \<le> mixture_value sparse dense u"
    using assms by (simp add: mixture_value_def)
  have "u * (mass sparse + mass dense) < 1 * (mass sparse + mass dense)"
    using assms by (intro mult_strict_right_mono) simp_all
  then show "mixture_value sparse dense u < mass sparse + mass dense"
    by (simp add: mixture_value_def)
qed

lemma pick_bin_iff:
  assumes "0 \<le> u" "0 < height slot"
  shows "pick_bin slot u = b \<longleftrightarrow>
     real b / real (height slot) \<le> u \<and> u < (real b + 1) / real (height slot)"
proof -
  have h: "0 < real (height slot)" using assms(2) by simp
  have nn: "0 \<le> u * real (height slot)" using assms(1) by simp
  then have f0: "0 \<le> \<lfloor>u * real (height slot)\<rfloor>" by simp
  have "pick_bin slot u = b \<longleftrightarrow> \<lfloor>u * real (height slot)\<rfloor> = int b"
    unfolding pick_bin_def using f0 by linarith
  also have "\<dots> \<longleftrightarrow> real b \<le> u * real (height slot) \<and> u * real (height slot) < real b + 1"
    by (auto simp: floor_eq_iff)
  also have "\<dots> \<longleftrightarrow> real b / real (height slot) \<le> u \<and> u < (real b + 1) / real (height slot)"
    using h by (simp add: pos_divide_le_eq pos_less_divide_eq)
  finally show ?thesis .
qed

lemma pick_bin_less:
  assumes "0 \<le> u" "u < 1" "0 < height slot"
  shows "pick_bin slot u < height slot"
proof -
  have "u < (real (pick_bin slot u) + 1) / real (height slot)"
    "real (pick_bin slot u) / real (height slot) \<le> u"
    using pick_bin_iff [OF assms(1,3), of "pick_bin slot u"] by simp_all
  then have "real (pick_bin slot u) / real (height slot) < 1" using assms(2) by linarith
  then show ?thesis using assms(3) by simp
qed


text \<open>
  C9. With the word's sparse slot and the dense slot built, \<open>Propose\<close> scales its
  uniform draw to a value in \<open>[0, sparse_mass + dense_mass)\<close>; it answers with an alias
  draw from the sparse slot when the value is below \<open>sparse_mass\<close> and from the dense
  slot otherwise. An alias draw picks a bin below \<open>height\<close>, every bin \<open>b\<close> being picked
  exactly on the interval \<open>[b / height, (b + 1) / height)\<close> of the uniform draw (all of
  the same length), and returns the bin's primary topic when the threshold is under the
  bin's stored height and its alternate topic otherwise.
\<close>

theorem Propose_mixture_draw:
  assumes "word_slot table word = Some sparse" and "dense_slot table = Some dense"
    and "0 \<le> u_mass" and "u_mass < 1" and "0 \<le> u_bin" and "u_bin < 1"
    and "0 < mass sparse + mass dense"
    and "0 < height sparse" and "0 < height dense"
  shows "0 \<le> mixture_value sparse dense u_mass
       \<and> mixture_value sparse dense u_mass < mass sparse + mass dense
       \<and> Propose table word u_mass u_bin u_threshold =
           Some (if mixture_value sparse dense u_mass < mass sparse
                 then alias_draw sparse u_bin u_threshold
                 else alias_draw dense u_bin u_threshold)
       \<and> pick_bin sparse u_bin < height sparse
       \<and> pick_bin dense u_bin < height dense
       \<and> (\<forall>b. (pick_bin sparse u_bin = b \<longleftrightarrow>
                 real b / real (height sparse) \<le> u_bin
                 \<and> u_bin < (real b + 1) / real (height sparse))
              \<and> (pick_bin dense u_bin = b \<longleftrightarrow>
                 real b / real (height dense) \<le> u_bin
                 \<and> u_bin < (real b + 1) / real (height dense)))
       \<and> (\<forall>slot. alias_draw slot u_bin u_threshold =
             (if u_threshold < fst (bins slot ! pick_bin slot u_bin)
              then fst (snd (bins slot ! pick_bin slot u_bin))
              else snd (snd (bins slot ! pick_bin slot u_bin))))"
proof -
  have draw: "alias_draw slot u_bin u_threshold =
      (if u_threshold < fst (bins slot ! pick_bin slot u_bin)
       then fst (snd (bins slot ! pick_bin slot u_bin))
       else snd (snd (bins slot ! pick_bin slot u_bin)))" for slot
    by (simp add: alias_draw_def case_prod_beta)
  have proposal: "Propose table word u_mass u_bin u_threshold =
      Some (if mixture_value sparse dense u_mass < mass sparse
            then alias_draw sparse u_bin u_threshold
            else alias_draw dense u_bin u_threshold)"
    using assms(1,2) by (simp add: Propose_def)
  show ?thesis
    using mixture_value_range [OF assms(3,4,7)] proposal
      pick_bin_less [OF assms(5,6,8)] pick_bin_less [OF assms(5,6,9)]
      pick_bin_iff [OF assms(5,8)] pick_bin_iff [OF assms(5,9)] draw
    by blast
qed

theorem Propose_mixture_draw_witness:
  "Propose
     \<lparr>capacity = (\<lambda>w. 2),
      word_slot = [3 \<mapsto> \<lparr>height = 2, mass = 3, bins = [(1 / 2, 7, 9), (1, 9, 9)]\<rparr>],
      dense_slot = Some \<lparr>height = 1, mass = 1, bins = [(1, 4, 4)]\<rparr>\<rparr>
     3 (1 / 2) (1 / 4) (3 / 4) = Some 9
   \<and> Propose
     \<lparr>capacity = (\<lambda>w. 2),
      word_slot = [3 \<mapsto> \<lparr>height = 2, mass = 3, bins = [(1 / 2, 7, 9), (1, 9, 9)]\<rparr>],
      dense_slot = Some \<lparr>height = 1, mass = 1, bins = [(1, 4, 4)]\<rparr>\<rparr>
     3 (9 / 10) (1 / 4) (3 / 4) = Some 4"
proof -
  let ?sparse = "\<lparr>height = 2, mass = 3, bins = [(1 / 2, 7, 9), (1, 9, 9)]\<rparr>"
  let ?dense = "\<lparr>height = 1, mass = 1, bins = [(1, 4, 4)]\<rparr>"
  let ?table = "\<lparr>capacity = (\<lambda>w. 2), word_slot = [3 \<mapsto> ?sparse], dense_slot = Some ?dense\<rparr>"
  have s: "word_slot ?table 3 = Some ?sparse" and d: "dense_slot ?table = Some ?dense"
    by simp_all
  have m: "0 < mass ?sparse + mass ?dense" and hs: "0 < height ?sparse"
    and hd: "0 < height ?dense"
    by simp_all
  have b1: "pick_bin ?sparse (1 / 4) = 0" and b2: "pick_bin ?dense (1 / 4) = 0"
    by (simp_all add: pick_bin_def)
  have "Propose ?table 3 (1 / 2) (1 / 4) (3 / 4) = Some 9"
    using Propose_mixture_draw [OF s d _ _ _ _ m hs hd, of "1 / 2" "1 / 4" "3 / 4"]
    by (simp add: mixture_value_def alias_draw_def b1)
  moreover have "Propose ?table 3 (9 / 10) (1 / 4) (3 / 4) = Some 4"
    using Propose_mixture_draw [OF s d _ _ _ _ m hs hd, of "9 / 10" "1 / 4" "3 / 4"]
    by (simp add: mixture_value_def alias_draw_def b2)
  ultimately show ?thesis by simp
qed

end
